theory Spec2Isabelle
  imports Main "HOL-Library.Word"
begin

section \<open>JavaScript strings\<close>

text \<open>
  A JavaScript string is a sequence of 16-bit code units, and a regular expression without
  the \<open>u\<close> flag matches code unit by code unit. Literals are written through \<open>js\<close>.
\<close>

type_synonym code_unit = "16 word"
type_synonym jsstring = "code_unit list"

definition js :: "string \<Rightarrow> jsstring" where
  "js s = map (\<lambda>c. word_of_nat (of_char c)) s"

text \<open>The character classes of the pattern: \<open>\$\<close>, \<open>[ \t]\<close> and \<open>[^\$\n]\<close>.\<close>

definition dollar :: code_unit where
  "dollar = 0x24"

definition hspace :: "code_unit \<Rightarrow> bool" where
  "hspace c = (c = 0x20 \<or> c = 0x09)"

definition body_char :: "code_unit \<Rightarrow> bool" where
  "body_char c = (c \<noteq> 0x24 \<and> c \<noteq> 0x0A)"

text \<open>
  \<open>String.prototype.trim\<close> strips WhiteSpace and LineTerminator code units from both ends:
  TAB, LF, VT, FF, CR, SP, NBSP, U+1680, U+2000 to U+200A, U+2028, U+2029, U+202F, U+205F,
  U+3000 and the BOM U+FEFF.
\<close>

definition white_space :: "code_unit \<Rightarrow> bool" where
  "white_space c =
     (c = 0x09 \<or> c = 0x0A \<or> c = 0x0B \<or> c = 0x0C \<or> c = 0x0D \<or> c = 0x20 \<or> c = 0xA0 \<or>
      c = 0x1680 \<or> (0x2000 \<le> c \<and> c \<le> 0x200A) \<or> c = 0x2028 \<or> c = 0x2029 \<or>
      c = 0x202F \<or> c = 0x205F \<or> c = 0x3000 \<or> c = 0xFEFF)"

definition trim :: "jsstring \<Rightarrow> jsstring" where
  "trim s = rev (dropWhile white_space (rev (dropWhile white_space s)))"

section \<open>The matcher\<close>

text \<open>
  The pattern \<^verbatim>\<open>/(?<!\$)\$[ \t]+([^\$\n]+?)[ \t]+\$(?!\$)/g\<close> is run by a backtracking
  matcher in continuation-passing style: every quantifier takes the rest of the pattern as
  its continuation \<open>k\<close>, which receives the code units the quantifier consumed and the
  input that is left, and answers \<open>None\<close> to ask for the next alternative.
  A greedy quantifier tries the longest repetition first, a lazy one the shortest.
\<close>

fun star_greedy ::
  "('a \<Rightarrow> bool) \<Rightarrow> ('a list \<Rightarrow> 'a list \<Rightarrow> 'r option) \<Rightarrow> 'a list \<Rightarrow> 'a list \<Rightarrow> 'r option" where
  "star_greedy P k acc [] = k acc []"
| "star_greedy P k acc (c # cs) =
     (if P c then
        (case star_greedy P k (acc @ [c]) cs of
           Some r \<Rightarrow> Some r
         | None \<Rightarrow> k acc (c # cs))
      else k acc (c # cs))"

fun plus_greedy ::
  "('a \<Rightarrow> bool) \<Rightarrow> ('a list \<Rightarrow> 'a list \<Rightarrow> 'r option) \<Rightarrow> 'a list \<Rightarrow> 'r option" where
  "plus_greedy P k [] = None"
| "plus_greedy P k (c # cs) = (if P c then star_greedy P k [c] cs else None)"

fun star_lazy ::
  "('a \<Rightarrow> bool) \<Rightarrow> ('a list \<Rightarrow> 'a list \<Rightarrow> 'r option) \<Rightarrow> 'a list \<Rightarrow> 'a list \<Rightarrow> 'r option" where
  "star_lazy P k acc [] = k acc []"
| "star_lazy P k acc (c # cs) =
     (case k acc (c # cs) of
        Some r \<Rightarrow> Some r
      | None \<Rightarrow> if P c then star_lazy P k (acc @ [c]) cs else None)"

fun plus_lazy ::
  "('a \<Rightarrow> bool) \<Rightarrow> ('a list \<Rightarrow> 'a list \<Rightarrow> 'r option) \<Rightarrow> 'a list \<Rightarrow> 'r option" where
  "plus_lazy P k [] = None"
| "plus_lazy P k (c # cs) = (if P c then star_lazy P k [c] cs else None)"

text \<open>
  The end of the pattern, \<^verbatim>\<open>\$(?!\$)\<close>: a dollar that no dollar follows. It is given the
  whole match so far and returns the matched text \<open>match[0]\<close> and the capture \<open>match[1]\<close>.
\<close>

fun closing :: "jsstring \<Rightarrow> jsstring \<Rightarrow> jsstring \<Rightarrow> jsstring \<Rightarrow> (jsstring \<times> jsstring) option" where
  "closing p1 body p2 [] = None"
| "closing p1 body p2 (d # rest) =
     (if d \<noteq> dollar then None
      else if (case rest of [] \<Rightarrow> False | x # _ \<Rightarrow> x = dollar) then None
      else Some (dollar # p1 @ body @ p2 @ [dollar], body))"

text \<open>
  One attempt of the whole pattern at one position: \<open>prev\<close> is the code unit before the
  position (\<open>None\<close> at the start of the string), read by the lookbehind \<^verbatim>\<open>(?<!\$)\<close>, and the
  list is the input from the position on.
\<close>

fun TOLERANT_MATH_REGEX :: "code_unit option \<Rightarrow> jsstring \<Rightarrow> (jsstring \<times> jsstring) option" where
  "TOLERANT_MATH_REGEX prev [] = None"
| "TOLERANT_MATH_REGEX prev (c # rest) =
     (if prev = Some dollar then None
      else if c \<noteq> dollar then None
      else plus_greedy hspace
             (\<lambda>p1. plus_lazy body_char
                (\<lambda>body. plus_greedy hspace
                   (\<lambda>p2. closing p1 body p2))) rest)"

record regexp_match =
  index :: nat
  m0 :: jsstring
  m1 :: jsstring

text \<open>
  \<open>RegExpBuiltinExec\<close> for a global, non-sticky expression: the pattern is tried at
  \<open>lastIndex\<close>, then at each later position up to the end of the string. A match sets
  \<open>lastIndex\<close> to its end; a failure, or a \<open>lastIndex\<close> beyond the string, sets it to 0.
  \<open>exec\<close> and \<open>test\<close> take the \<open>lastIndex\<close> of the shared expression object and return
  the new one.
\<close>

fun search :: "code_unit option \<Rightarrow> nat \<Rightarrow> jsstring \<Rightarrow> regexp_match option" where
  "search prev i [] =
     (case TOLERANT_MATH_REGEX prev [] of
        Some (raw, cap) \<Rightarrow> Some \<lparr>index = i, m0 = raw, m1 = cap\<rparr>
      | None \<Rightarrow> None)"
| "search prev i (c # cs) =
     (case TOLERANT_MATH_REGEX prev (c # cs) of
        Some (raw, cap) \<Rightarrow> Some \<lparr>index = i, m0 = raw, m1 = cap\<rparr>
      | None \<Rightarrow> search (Some c) (Suc i) cs)"

definition exec :: "jsstring \<Rightarrow> nat \<Rightarrow> regexp_match option \<times> nat" where
  "exec text lastIndex =
     (if length text < lastIndex then (None, 0)
      else
        (case search (if lastIndex = 0 then None else Some (text ! (lastIndex - 1)))
                lastIndex (drop lastIndex text) of
           None \<Rightarrow> (None, 0)
         | Some m \<Rightarrow> (Some m, index m + length (m0 m))))"

definition test :: "jsstring \<Rightarrow> nat \<Rightarrow> bool \<times> nat" where
  "test text lastIndex = (case exec text lastIndex of (r, lastIndex') \<Rightarrow> (r \<noteq> None, lastIndex'))"

subsection \<open>What a successful attempt has matched\<close>

lemma star_greedy_sound:
  "star_greedy P k acc rest = Some r \<Longrightarrow>
   \<exists>m rest'. rest = m @ rest' \<and> list_all P m \<and> k (acc @ m) rest' = Some r"
proof (induction rest arbitrary: acc)
  case Nil
  then show ?case by simp
next
  case (Cons c cs)
  show ?case
  proof (cases "P c \<and> star_greedy P k (acc @ [c]) cs \<noteq> None")
    case True
    then have "star_greedy P k (acc @ [c]) cs = Some r"
      using Cons.prems by auto
    from Cons.IH [OF this] obtain m rest' where
      "cs = m @ rest'" "list_all P m" "k ((acc @ [c]) @ m) rest' = Some r" by blast
    with True have "c # cs = (c # m) @ rest' \<and> list_all P (c # m) \<and> k (acc @ c # m) rest' = Some r"
      by simp
    then show ?thesis by blast
  next
    case False
    then have "k (acc @ []) (c # cs) = Some r"
      using Cons.prems by (auto split: if_splits option.splits)
    then have "c # cs = [] @ (c # cs) \<and> list_all P [] \<and> k (acc @ []) (c # cs) = Some r"
      by simp
    then show ?thesis by blast
  qed
qed

lemma plus_greedy_sound:
  "plus_greedy P k rest = Some r \<Longrightarrow>
   \<exists>m rest'. rest = m @ rest' \<and> m \<noteq> [] \<and> list_all P m \<and> k m rest' = Some r"
proof (cases rest)
  case Nil
  assume "plus_greedy P k rest = Some r"
  with Nil show ?thesis by simp
next
  case (Cons c cs)
  assume a: "plus_greedy P k rest = Some r"
  with Cons have pc: "P c" and "star_greedy P k [c] cs = Some r"
    by (auto split: if_splits)
  from star_greedy_sound [OF this(2)] obtain m rest' where
    "cs = m @ rest'" "list_all P m" "k ([c] @ m) rest' = Some r" by blast
  with Cons pc have "rest = (c # m) @ rest' \<and> c # m \<noteq> [] \<and> list_all P (c # m) \<and> k (c # m) rest' = Some r"
    by simp
  then show ?thesis by blast
qed

lemma star_lazy_sound:
  "star_lazy P k acc rest = Some r \<Longrightarrow>
   \<exists>m rest'. rest = m @ rest' \<and> list_all P m \<and> k (acc @ m) rest' = Some r"
proof (induction rest arbitrary: acc)
  case Nil
  then show ?case by simp
next
  case (Cons c cs)
  show ?case
  proof (cases "k acc (c # cs)")
    case (Some r')
    with Cons.prems have "k (acc @ []) (c # cs) = Some r" by simp
    then have "c # cs = [] @ (c # cs) \<and> list_all P [] \<and> k (acc @ []) (c # cs) = Some r"
      by simp
    then show ?thesis by blast
  next
    case None
    with Cons.prems have pc: "P c" and "star_lazy P k (acc @ [c]) cs = Some r"
      by (auto split: if_splits)
    from Cons.IH [OF this(2)] obtain m rest' where
      "cs = m @ rest'" "list_all P m" "k ((acc @ [c]) @ m) rest' = Some r" by blast
    with pc have "c # cs = (c # m) @ rest' \<and> list_all P (c # m) \<and> k (acc @ c # m) rest' = Some r"
      by simp
    then show ?thesis by blast
  qed
qed

lemma plus_lazy_sound:
  "plus_lazy P k rest = Some r \<Longrightarrow>
   \<exists>m rest'. rest = m @ rest' \<and> m \<noteq> [] \<and> list_all P m \<and> k m rest' = Some r"
proof (cases rest)
  case Nil
  assume "plus_lazy P k rest = Some r"
  with Nil show ?thesis by simp
next
  case (Cons c cs)
  assume a: "plus_lazy P k rest = Some r"
  with Cons have pc: "P c" and "star_lazy P k [c] cs = Some r"
    by (auto split: if_splits)
  from star_lazy_sound [OF this(2)] obtain m rest' where
    "cs = m @ rest'" "list_all P m" "k ([c] @ m) rest' = Some r" by blast
  with Cons pc have "rest = (c # m) @ rest' \<and> c # m \<noteq> [] \<and> list_all P (c # m) \<and> k (c # m) rest' = Some r"
    by simp
  then show ?thesis by blast
qed

lemma closing_sound:
  "closing p1 body p2 rest = Some r \<Longrightarrow>
   \<exists>post. rest = dollar # post \<and> (post = [] \<or> hd post \<noteq> dollar) \<and>
          r = (dollar # p1 @ body @ p2 @ [dollar], body)"
  by (cases rest) (auto split: if_splits list.splits)

definition spaced_span :: "jsstring \<Rightarrow> jsstring \<Rightarrow> bool" where
  "spaced_span raw cap =
     (\<exists>p1 p2. raw = dollar # p1 @ cap @ p2 @ [dollar] \<and>
              p1 \<noteq> [] \<and> list_all hspace p1 \<and>
              cap \<noteq> [] \<and> list_all body_char cap \<and>
              p2 \<noteq> [] \<and> list_all hspace p2)"

lemma TOLERANT_MATH_REGEX_sound:
  assumes "TOLERANT_MATH_REGEX prev rest = Some (raw, cap)"
  shows "\<exists>post. rest = raw @ post \<and> spaced_span raw cap \<and> prev \<noteq> Some dollar \<and>
                (post = [] \<or> hd post \<noteq> dollar)"
proof (cases rest)
  case Nil
  with assms show ?thesis by simp
next
  case (Cons c r1)
  with assms have prev: "prev \<noteq> Some dollar" and c: "c = dollar"
    and g: "plus_greedy hspace (\<lambda>p1. plus_lazy body_char
                (\<lambda>body. plus_greedy hspace (\<lambda>p2. closing p1 body p2))) r1 = Some (raw, cap)"
    by (auto split: if_splits)
  from plus_greedy_sound [OF g] obtain p1 r2 where
    p1: "r1 = p1 @ r2" "p1 \<noteq> []" "list_all hspace p1"
    and l: "plus_lazy body_char (\<lambda>body. plus_greedy hspace (\<lambda>p2. closing p1 body p2)) r2 = Some (raw, cap)"
    by blast
  from plus_lazy_sound [OF l] obtain body r3 where
    body: "r2 = body @ r3" "body \<noteq> []" "list_all body_char body"
    and g2: "plus_greedy hspace (\<lambda>p2. closing p1 body p2) r3 = Some (raw, cap)"
    by blast
  from plus_greedy_sound [OF g2] obtain p2 r4 where
    p2: "r3 = p2 @ r4" "p2 \<noteq> []" "list_all hspace p2"
    and cl: "closing p1 body p2 r4 = Some (raw, cap)"
    by blast
  from closing_sound [OF cl] obtain post where
    post: "r4 = dollar # post" "post = [] \<or> hd post \<noteq> dollar"
    and r: "(raw, cap) = (dollar # p1 @ body @ p2 @ [dollar], body)"
    by blast
  from r have raw: "raw = dollar # p1 @ cap @ p2 @ [dollar]" and cap: "cap = body" by simp_all
  have "spaced_span raw cap"
    unfolding spaced_span_def using raw cap p1 body p2 by blast
  moreover have "rest = raw @ post"
    using Cons c p1(1) body(1) p2(1) post(1) raw cap by simp
  ultimately show ?thesis using prev post(2) by blast
qed

lemma spaced_span_length: "spaced_span raw cap \<Longrightarrow> 5 \<le> length raw"
proof -
  assume "spaced_span raw cap"
  then obtain p1 p2 where raw: "raw = dollar # p1 @ cap @ p2 @ [dollar]"
    and ne: "p1 \<noteq> []" "cap \<noteq> []" "p2 \<noteq> []"
    unfolding spaced_span_def by blast
  from ne have "1 \<le> length p1" "1 \<le> length cap" "1 \<le> length p2"
    by (simp_all add: Suc_le_eq)
  with raw show ?thesis by simp
qed

lemma search_sound:
  "search prev i rest = Some m \<Longrightarrow>
   \<exists>pre post. rest = pre @ m0 m @ post \<and> index m = i + length pre \<and>
              spaced_span (m0 m) (m1 m) \<and>
              (if pre = [] then prev else Some (last pre)) \<noteq> Some dollar \<and>
              (post = [] \<or> hd post \<noteq> dollar)"
proof (induction rest arbitrary: prev i)
  case Nil
  then show ?case by simp
next
  case (Cons c cs)
  show ?case
  proof (cases "TOLERANT_MATH_REGEX prev (c # cs)")
    case None
    with Cons.prems have "search (Some c) (Suc i) cs = Some m" by simp
    from Cons.IH [OF this] obtain pre post where
      h: "cs = pre @ m0 m @ post" "index m = Suc i + length pre" "spaced_span (m0 m) (m1 m)"
         "(if pre = [] then Some c else Some (last pre)) \<noteq> Some dollar"
         "post = [] \<or> hd post \<noteq> dollar"
      by blast
    then have "c # cs = (c # pre) @ m0 m @ post \<and> index m = i + length (c # pre) \<and>
        spaced_span (m0 m) (m1 m) \<and>
        (if c # pre = [] then prev else Some (last (c # pre))) \<noteq> Some dollar \<and>
        (post = [] \<or> hd post \<noteq> dollar)"
      by (simp split: if_splits)
    then show ?thesis by blast
  next
    case (Some rc)
    obtain raw cap where rc: "rc = (raw, cap)" by (cases rc)
    with Some Cons.prems have m: "m = \<lparr>index = i, m0 = raw, m1 = cap\<rparr>" by simp
    from TOLERANT_MATH_REGEX_sound [OF Some [unfolded rc]] obtain post where
      "c # cs = raw @ post" "spaced_span raw cap" "prev \<noteq> Some dollar"
      "post = [] \<or> hd post \<noteq> dollar"
      by blast
    with m have "c # cs = [] @ m0 m @ post \<and> index m = i + length ([]::jsstring) \<and>
        spaced_span (m0 m) (m1 m) \<and>
        (if ([]::jsstring) = [] then prev else Some (last [])) \<noteq> Some dollar \<and>
        (post = [] \<or> hd post \<noteq> dollar)"
      by simp
    then show ?thesis by blast
  qed
qed

lemma last_before:
  assumes "s = (a @ pre) @ rest" and "pre \<noteq> []"
  shows "s ! (length (a @ pre) - 1) = last pre"
proof -
  have ne: "a @ pre \<noteq> []" using assms(2) by simp
  then have "length (a @ pre) - 1 < length (a @ pre)" by simp
  then have "s ! (length (a @ pre) - 1) = (a @ pre) ! (length (a @ pre) - 1)"
    unfolding assms(1) by (rule nth_append_left)
  also have "\<dots> = last (a @ pre)"
    using ne by (rule last_conv_nth [symmetric])
  also have "\<dots> = last pre"
    using assms(2) by simp
  finally show ?thesis .
qed

lemma exec_None: "exec text lastIndex = (None, lastIndex') \<Longrightarrow> lastIndex' = 0"
  by (auto simp: exec_def split: if_splits option.splits)

lemma exec_Some:
  assumes "exec text lastIndex = (Some m, lastIndex')"
  shows "lastIndex \<le> index m"
    and "lastIndex' = index m + length (m0 m)"
    and "lastIndex' \<le> length text"
    and "spaced_span (m0 m) (m1 m)"
    and "take (length (m0 m)) (drop (index m) text) = m0 m"
    and "index m = 0 \<or> text ! (index m - 1) \<noteq> dollar"
    and "lastIndex' = length text \<or> text ! lastIndex' \<noteq> dollar"
proof -
  let ?prev = "if lastIndex = 0 then None else Some (text ! (lastIndex - 1))"
  from assms have le: "lastIndex \<le> length text"
    and s: "search ?prev lastIndex (drop lastIndex text) = Some m"
    and li': "lastIndex' = index m + length (m0 m)"
    by (auto simp: exec_def split: if_splits option.splits)
  from search_sound [OF s] obtain pre post where
    d: "drop lastIndex text = pre @ m0 m @ post" and i: "index m = lastIndex + length pre"
    and sp: "spaced_span (m0 m) (m1 m)"
    and lb: "(if pre = [] then ?prev else Some (last pre)) \<noteq> Some dollar"
    and la: "post = [] \<or> hd post \<noteq> dollar"
    by blast
  have tx: "text = (take lastIndex text @ pre) @ m0 m @ post"
    using d by (metis append_take_drop_id append.assoc)
  have len: "length (take lastIndex text @ pre) = index m"
    using le i by simp
  show "lastIndex \<le> index m" using i by simp
  show "lastIndex' = index m + length (m0 m)" by (rule li')
  have total: "length text = index m + length (m0 m) + length post"
    using arg_cong [OF tx, of length] len by simp
  then show "lastIndex' \<le> length text" using li' by simp
  show "spaced_span (m0 m) (m1 m)" by (rule sp)
  have dr: "drop (index m) text = m0 m @ post"
    using tx len by (metis append_eq_conv_conj)
  then show "take (length (m0 m)) (drop (index m) text) = m0 m" by simp
  show "index m = 0 \<or> text ! (index m - 1) \<noteq> dollar"
  proof (cases "pre = []")
    case True
    with lb i show ?thesis by (auto split: if_splits)
  next
    case False
    with tx have "text ! (length (take lastIndex text @ pre) - 1) = last pre"
      by (rule last_before)
    with lb False show ?thesis by (simp only: len if_False) simp
  qed
  show "lastIndex' = length text \<or> text ! lastIndex' \<noteq> dollar"
  proof (cases "post = []")
    case True
    with total li' show ?thesis by simp
  next
    case False
    have "drop lastIndex' text = post"
      using dr li' by (metis add.commute append_eq_conv_conj drop_drop)
    then have "text ! lastIndex' = hd post"
      using False by (metis hd_drop_conv_nth drop_eq_Nil not_le)
    with la False show ?thesis by simp
  qed
qed

section \<open>A full-text scan\<close>

text \<open>
  Both scanners enumerate the matches of a text with
  \<^verbatim>\<open>while ((match = TOLERANT_MATH_REGEX.exec(text)) !== null)\<close>. \<open>scan\<close> is the sequence of
  matches that loop visits when it is entered with the given \<open>lastIndex\<close>; the loop ends
  with the failed \<open>exec\<close> that leaves \<open>lastIndex\<close> at 0.
\<close>

lemma exec_progress:
  "exec text lastIndex = (Some m, lastIndex') \<Longrightarrow> length text - lastIndex' < length text - lastIndex"
proof -
  assume e: "exec text lastIndex = (Some m, lastIndex')"
  have "5 \<le> length (m0 m)"
    using exec_Some(4) [OF e] by (rule spaced_span_length)
  with exec_Some(1,2,3) [OF e] show ?thesis by simp
qed

function scan :: "jsstring \<Rightarrow> nat \<Rightarrow> regexp_match list" where
  "scan text lastIndex =
     (case exec text lastIndex of
        (None, lastIndex') \<Rightarrow> []
      | (Some m, lastIndex') \<Rightarrow> m # scan text lastIndex')"
  by pat_completeness auto
termination
  by (relation "measure (\<lambda>(text, lastIndex). length text - lastIndex)")
     (auto dest: exec_progress [OF sym])

declare scan.simps [simp del]

lemma scan_None: "exec text lastIndex = (None, lastIndex') \<Longrightarrow> scan text lastIndex = []"
  by (simp add: scan.simps [of "text" lastIndex])

lemma scan_Some:
  "exec text lastIndex = (Some m, lastIndex') \<Longrightarrow> scan text lastIndex = m # scan text lastIndex'"
  by (simp add: scan.simps [of "text" lastIndex])

lemma scan_member:
  "m \<in> set (scan s lastIndex) \<Longrightarrow>
   lastIndex \<le> index m \<and> index m + length (m0 m) \<le> length s \<and>
   spaced_span (m0 m) (m1 m) \<and>
   take (length (m0 m)) (drop (index m) s) = m0 m \<and>
   (index m = 0 \<or> s ! (index m - 1) \<noteq> dollar) \<and>
   (index m + length (m0 m) = length s \<or> s ! (index m + length (m0 m)) \<noteq> dollar)"
proof (induction s lastIndex rule: scan.induct)
  case (1 s lastIndex)
  obtain r lastIndex' where e: "exec s lastIndex = (r, lastIndex')"
    by (cases "exec s lastIndex")
  show ?case
  proof (cases r)
    case None
    with e "1.prems" show ?thesis by (simp add: scan_None)
  next
    case (Some m')
    with e have e': "exec s lastIndex = (Some m', lastIndex')" by simp
    from "1.prems" have "m = m' \<or> m \<in> set (scan s lastIndex')"
      by (simp add: scan_Some [OF e'])
    then show ?thesis
    proof
      assume "m = m'"
      with exec_Some [OF e'] show ?thesis by simp
    next
      assume "m \<in> set (scan s lastIndex')"
      from "1.IH" [OF e' [symmetric] refl this] exec_Some(1,2) [OF e']
      show ?thesis by simp
    qed
  qed
qed

lemma scan_sorted:
  "sorted_wrt (\<lambda>a b. index a + length (m0 a) \<le> index b) (scan s lastIndex)"
proof (induction s lastIndex rule: scan.induct)
  case (1 s lastIndex)
  obtain r lastIndex' where e: "exec s lastIndex = (r, lastIndex')"
    by (cases "exec s lastIndex")
  show ?case
  proof (cases r)
    case None
    with e show ?thesis by (simp add: scan_None)
  next
    case (Some m')
    with e have e': "exec s lastIndex = (Some m', lastIndex')" by simp
    have "\<forall>b\<in>set (scan s lastIndex'). index m' + length (m0 m') \<le> index b"
      using scan_member [of _ s lastIndex'] exec_Some(2) [OF e'] by auto
    with "1.IH" [OF e' [symmetric] refl] show ?thesis
      by (simp add: scan_Some [OF e'])
  qed
qed

lemma hspace_not_dollar: "hspace c \<Longrightarrow> c \<noteq> dollar"
  by (auto simp: hspace_def dollar_def)

lemma body_char_not_dollar: "body_char c \<Longrightarrow> c \<noteq> dollar"
  by (simp add: body_char_def dollar_def)

lemma filter_none: "list_all (\<lambda>c. c \<noteq> d) xs \<Longrightarrow> filter (\<lambda>c. c = d) xs = []"
  by (induction xs) auto

lemma spaced_span_shape:
  assumes "spaced_span raw cap"
  shows "raw ! 0 = dollar"
    and "hspace (raw ! 1)"
    and "hspace (raw ! (length raw - 2))"
    and "raw ! (length raw - 1) = dollar"
    and "cap \<noteq> []"
    and "list_all body_char cap"
    and "length (filter (\<lambda>c. c = dollar) raw) = 2"
proof -
  from assms obtain p1 p2 where raw: "raw = dollar # p1 @ cap @ p2 @ [dollar]"
    and p1: "p1 \<noteq> []" "list_all hspace p1"
    and cap: "cap \<noteq> []" "list_all body_char cap"
    and p2: "p2 \<noteq> []" "list_all hspace p2"
    unfolding spaced_span_def by blast
  show "raw ! 0 = dollar" using raw by simp
  show "cap \<noteq> []" "list_all body_char cap" using cap by simp_all
  have "raw ! 1 = hd p1"
    using raw p1(1) by (cases p1) simp_all
  moreover have "hspace (hd p1)"
    using p1 by (cases p1) simp_all
  ultimately show "hspace (raw ! 1)" by simp
  define ys where "ys = dollar # p1 @ cap @ butlast p2"
  have split: "raw = ys @ [last p2, dollar]"
    unfolding ys_def using raw p2(1)
    by (simp add: append_butlast_last_id [symmetric] del: append_butlast_last_id)
  have "(ys @ [last p2, dollar]) ! (length (ys @ [last p2, dollar]) - 2) = last p2"
    by (simp add: nth_append)
  then have "raw ! (length raw - 2) = last p2"
    using split by simp
  moreover have "hspace (last p2)"
    using p2 by (simp add: list_all_iff)
  ultimately show "hspace (raw ! (length raw - 2))" by simp
  have "(ys @ [last p2, dollar]) ! (length (ys @ [last p2, dollar]) - 1) = dollar"
    by (simp add: nth_append)
  then show "raw ! (length raw - 1) = dollar"
    using split by simp
  have "filter (\<lambda>c. c = dollar) p1 = []" "filter (\<lambda>c. c = dollar) p2 = []"
       "filter (\<lambda>c. c = dollar) cap = []"
    using p1(2) p2(2) cap(2)
    by (auto intro!: filter_none simp: list_all_iff hspace_not_dollar body_char_not_dollar)
  then show "length (filter (\<lambda>c. c = dollar) raw) = 2"
    using raw by simp
qed

lemma nth_of_slice:
  assumes "take n (drop i s) = raw" and "k < length raw"
  shows "s ! (i + k) = raw ! k"
proof -
  from assms have "k < n" and "i + k < length s" by auto
  then have "take n (drop i s) ! k = s ! (i + k)" by simp
  with assms(1) show ?thesis by simp
qed

text \<open>The equations that evaluate the matcher on a literal.\<close>

lemmas matcher_eval =
  scan.simps exec_def js_def dollar_def hspace_def body_char_def

section \<open>The renderer and the document tree\<close>

text \<open>
  A node of the rendered document is a text node or an element with its tag name, its class
  list and its children. \<open>renderMath\<close> and \<open>finishRenderMath\<close> belong to the host:
  \<open>renderMath\<close> is a parameter that returns the element it built (tag name, class list,
  children) or the value it threw, and every call to either function is recorded in the
  order it is made.
\<close>

datatype node =
  TextNode jsstring
| Element string "string list" "node list"

type_synonym html_element = "string \<times> string list \<times> node list"

type_synonym 'e renderer = "jsstring \<Rightarrow> bool \<Rightarrow> 'e + html_element"

datatype call =
  RenderMath jsstring bool
| FinishRenderMath

section \<open>The live preview\<close>

record TolerantMathWidget =
  formula :: jsstring

text \<open>\<open>eq\<close> compares the formulas; \<open>toDOM\<close> is run by the editor when it draws the widget.\<close>

definition eq :: "TolerantMathWidget \<Rightarrow> TolerantMathWidget \<Rightarrow> bool" where
  "eq this other = (formula other = formula this)"

definition toDOM :: "'e renderer \<Rightarrow> TolerantMathWidget \<Rightarrow> node" where
  "toDOM renderMath this =
     (case renderMath (formula this) False of
        Inr (tag, classes, children) \<Rightarrow>
          Element ''SPAN'' [''tolerant-math-widget''] [Element tag classes children]
      | Inl e \<Rightarrow>
          Element ''SPAN'' [''tolerant-math-widget'']
            [TextNode (js ''$ '' @ formula this @ js '' $'')])"

text \<open>
  The editor state that \<open>buildDecorations\<close> reads: the document, the visible ranges, the
  selection ranges and the syntax tree. The fields \<open>from\<close> and \<open>to\<close> of a range are
  \<open>rfrom\<close> and \<open>rto\<close>. \<open>syntaxTree view a b\<close> lists the nodes that
  \<^verbatim>\<open>tree.iterate({from: a, to: b, enter})\<close> enters, in order; node names are ASCII.
\<close>

record text_range =
  rfrom :: nat
  rto :: nat

record syntax_node =
  name :: string
  nfrom :: nat
  nto :: nat

record editor_view =
  doc :: jsstring
  visibleRanges :: "text_range list"
  selection :: "text_range list"
  syntaxTree :: "nat \<Rightarrow> nat \<Rightarrow> syntax_node list"

record decoration =
  dfrom :: nat
  dto :: nat
  widget :: TolerantMathWidget

definition sliceString :: "jsstring \<Rightarrow> nat \<Rightarrow> nat \<Rightarrow> jsstring" where
  "sliceString d a b = take (b - a) (drop a d)"

definition toLowerCase :: "string \<Rightarrow> string" where
  "toLowerCase s =
     map (\<lambda>c. if 65 \<le> (of_char c :: nat) \<and> (of_char c :: nat) \<le> 90
               then char_of (of_char c + (32 :: nat)) else c) s"

fun str_includes :: "'a list \<Rightarrow> 'a list \<Rightarrow> bool" where
  "str_includes [] sub = (sub = [])"
| "str_includes (c # cs) sub = (take (length sub) (c # cs) = sub \<or> str_includes cs sub)"

definition nativeMathRanges :: "editor_view \<Rightarrow> text_range list" where
  "nativeMathRanges view =
     concat (map (\<lambda>r. map (\<lambda>n. \<lparr>rfrom = nfrom n, rto = nto n\<rparr>)
                          (filter (\<lambda>n. str_includes (toLowerCase (name n)) ''math'')
                             (syntaxTree view (rfrom r) (rto r))))
                 (visibleRanges view))"

text \<open>
  The \<open>while\<close> loop of \<open>buildDecorations\<close> over one visible range, in the TypeScript source.
  Its state is the builder (the decorations added so far, in the order of the \<open>add\<close>
  calls), \<open>needsFinish\<close> and the \<open>lastIndex\<close> of the expression.
\<close>

function buildDecorations_while ::
  "jsstring \<Rightarrow> nat \<Rightarrow> text_range list \<Rightarrow> text_range list \<Rightarrow>
   decoration list \<times> bool \<times> nat \<Rightarrow> decoration list \<times> bool \<times> nat" where
  "buildDecorations_while text from native cursors (builder, needsFinish, lastIndex) =
     (case exec text lastIndex of
        (None, lastIndex') \<Rightarrow> (builder, needsFinish, lastIndex')
      | (Some match, lastIndex') \<Rightarrow>
          (let matchFrom = from + index match;
               matchTo = matchFrom + length (m0 match);
               formula = trim (m1 match);
               overlapsNative = list_ex (\<lambda>r. rfrom r < matchTo \<and> rto r > matchFrom) native;
               cursorInside = list_ex (\<lambda>r. rfrom r \<le> matchTo \<and> rto r \<ge> matchFrom) cursors
           in if overlapsNative then
                buildDecorations_while text from native cursors (builder, needsFinish, lastIndex')
              else if cursorInside then
                buildDecorations_while text from native cursors (builder, needsFinish, lastIndex')
              else
                buildDecorations_while text from native cursors
                  (builder @ [\<lparr>dfrom = matchFrom, dto = matchTo,
                               widget = \<lparr>formula = formula\<rparr>\<rparr>], True, lastIndex')))"
  by pat_completeness auto
termination
  by (relation "measure (\<lambda>(text, from, native, cursors, builder, needsFinish, lastIndex).
                    length text - lastIndex)")
     (auto dest: exec_progress [OF sym])

declare buildDecorations_while.simps [simp del]

text \<open>The \<open>for\<close> loop over the visible ranges, which resets \<open>lastIndex\<close> for each range.\<close>

fun buildDecorations_for ::
  "editor_view \<Rightarrow> text_range list \<Rightarrow> text_range list \<Rightarrow>
   decoration list \<times> bool \<times> nat \<Rightarrow> decoration list \<times> bool \<times> nat" where
  "buildDecorations_for view native [] state = state"
| "buildDecorations_for view native (r # rs) (builder, needsFinish, lastIndex) =
     buildDecorations_for view native rs
       (buildDecorations_while (sliceString (doc view) (rfrom r) (rto r)) (rfrom r)
          native (selection view) (builder, needsFinish, 0))"

text \<open>
  \<open>buildDecorations\<close> returns the decoration set, the host calls it made and the
  \<open>lastIndex\<close> it leaves in the expression.
\<close>

definition buildDecorations :: "editor_view \<Rightarrow> nat \<Rightarrow> decoration list \<times> call list \<times> nat" where
  "buildDecorations view lastIndex =
     (case buildDecorations_for view (nativeMathRanges view) (visibleRanges view)
             ([], False, lastIndex) of
        (builder, needsFinish, lastIndex') \<Rightarrow>
          (builder, if needsFinish then [FinishRenderMath] else [], lastIndex'))"

text \<open>
  The built \<open>main.js\<close> (and the older copy of the source) has the same function without
  the native-math ranges: it never reads the syntax tree.
\<close>

function main_js_while ::
  "jsstring \<Rightarrow> nat \<Rightarrow> text_range list \<Rightarrow>
   decoration list \<times> bool \<times> nat \<Rightarrow> decoration list \<times> bool \<times> nat" where
  "main_js_while text from cursors (builder, needsFinish, lastIndex) =
     (case exec text lastIndex of
        (None, lastIndex') \<Rightarrow> (builder, needsFinish, lastIndex')
      | (Some match, lastIndex') \<Rightarrow>
          (let matchFrom = from + index match;
               matchTo = matchFrom + length (m0 match);
               formula = trim (m1 match);
               cursorInside = list_ex (\<lambda>r. rfrom r \<le> matchTo \<and> rto r \<ge> matchFrom) cursors
           in if cursorInside then
                main_js_while text from cursors (builder, needsFinish, lastIndex')
              else
                main_js_while text from cursors
                  (builder @ [\<lparr>dfrom = matchFrom, dto = matchTo,
                               widget = \<lparr>formula = formula\<rparr>\<rparr>], True, lastIndex')))"
  by pat_completeness auto
termination
  by (relation "measure (\<lambda>(text, from, cursors, builder, needsFinish, lastIndex).
                    length text - lastIndex)")
     (auto dest: exec_progress [OF sym])

declare main_js_while.simps [simp del]

fun main_js_for ::
  "editor_view \<Rightarrow> text_range list \<Rightarrow>
   decoration list \<times> bool \<times> nat \<Rightarrow> decoration list \<times> bool \<times> nat" where
  "main_js_for view [] state = state"
| "main_js_for view (r # rs) (builder, needsFinish, lastIndex) =
     main_js_for view rs
       (main_js_while (sliceString (doc view) (rfrom r) (rto r)) (rfrom r)
          (selection view) (builder, needsFinish, 0))"

definition main_js_buildDecorations ::
  "editor_view \<Rightarrow> nat \<Rightarrow> decoration list \<times> call list \<times> nat" where
  "main_js_buildDecorations view lastIndex =
     (case main_js_for view (visibleRanges view) ([], False, lastIndex) of
        (builder, needsFinish, lastIndex') \<Rightarrow>
          (builder, if needsFinish then [FinishRenderMath] else [], lastIndex'))"

section \<open>The reading view\<close>

definition slice :: "jsstring \<Rightarrow> nat \<Rightarrow> nat \<Rightarrow> jsstring" where
  "slice s a b = take (b - a) (drop a s)"

definition classList_add :: "string \<Rightarrow> string list \<Rightarrow> string list" where
  "classList_add c classList = (if c \<in> set classList then classList else classList @ [c])"

text \<open>
  The \<open>while\<close> loop of \<open>replaceTextNodeWithMath\<close>. Its state is the fragment's children, the
  local \<open>lastIndex\<close>, \<open>didReplace\<close>, the host calls made so far and \<open>re\<close>, the
  \<open>lastIndex\<close> of the expression. The \<open>catch\<close> clause takes every value \<open>renderMath\<close> throws.
\<close>

function replaceTextNodeWithMath_while ::
  "'e renderer \<Rightarrow> jsstring \<Rightarrow> node list \<times> nat \<times> bool \<times> call list \<times> nat \<Rightarrow>
   node list \<times> nat \<times> bool \<times> call list \<times> nat" where
  "replaceTextNodeWithMath_while renderMath text (fragment, lastIndex, didReplace, calls, re) =
     (case exec text re of
        (None, re') \<Rightarrow> (fragment, lastIndex, didReplace, calls, re')
      | (Some match, re') \<Rightarrow>
          (let fragment1 =
                 (if index match > lastIndex
                  then fragment @ [TextNode (slice text lastIndex (index match))]
                  else fragment);
               formula = trim (m1 match)
           in case renderMath formula False of
                Inr (tag, classList, children) \<Rightarrow>
                  replaceTextNodeWithMath_while renderMath text
                    (fragment1 @ [Element tag (classList_add ''tolerant-math-inline'' classList) children],
                     index match + length (m0 match), True,
                     calls @ [RenderMath formula False], re')
              | Inl e \<Rightarrow>
                  replaceTextNodeWithMath_while renderMath text
                    (fragment1 @ [TextNode (m0 match)],
                     index match + length (m0 match), didReplace,
                     calls @ [RenderMath formula False], re')))"
  by pat_completeness auto
termination
  by (relation "measure (\<lambda>(renderMath, text, fragment, lastIndex, didReplace, calls, re).
                    length text - re)")
     (auto dest: exec_progress [OF sym])

declare replaceTextNodeWithMath_while.simps [simp del]

text \<open>
  What one call of \<open>replaceTextNodeWithMath\<close> leaves behind: the value it returns, the
  fragment it assembled, the nodes that stand in the text node's place in its parent after
  the call (the text node itself when nothing was replaced), the host calls it made and the
  \<open>lastIndex\<close> of the expression.
\<close>

record outcome =
  returned :: bool
  fragment :: "node list"
  placed :: "node list"
  calls :: "call list"
  reLastIndex :: nat

definition replaceTextNodeWithMath :: "'e renderer \<Rightarrow> jsstring \<Rightarrow> bool \<Rightarrow> nat \<Rightarrow> outcome" where
  "replaceTextNodeWithMath renderMath text hasParent re =
     (let re1 = 0;
          (found, re2) = test text re1
      in if \<not> found then
           \<lparr>returned = False, fragment = [], placed = [TextNode text], calls = [],
            reLastIndex = re2\<rparr>
         else
           (let re3 = 0;
                (fragment, lastIndex, didReplace, calls, re4) =
                   replaceTextNodeWithMath_while renderMath text ([], 0, False, [], re3);
                fragment' =
                   (if lastIndex < length text
                    then fragment @ [TextNode (drop lastIndex text)]
                    else fragment)
            in \<lparr>returned = didReplace, fragment = fragment',
                placed = (if didReplace \<and> hasParent then fragment' else [TextNode text]),
                calls = calls, reLastIndex = re4\<rparr>))"

text \<open>
  The filter of the tree walker, for a text node with the given content whose parent element
  has the given tag name and class list. Inside the element that is processed every text
  node has a parent element.
\<close>

definition acceptNode :: "string \<Rightarrow> string list \<Rightarrow> jsstring \<Rightarrow> bool" where
  "acceptNode tag classList textContent =
     (if tag = ''CODE'' \<or> tag = ''PRE'' \<or> tag = ''MATH'' \<or> tag = ''SCRIPT'' then False
      else if ''math'' \<in> set classList \<or> ''math-inline'' \<in> set classList \<or>
              ''math-block'' \<in> set classList then False
      else if dollar \<notin> set textContent then False
      else True)"

text \<open>
  The walk collects the accepted text nodes below an element in document order, before any
  of them is replaced.
\<close>

fun nodesToProcess :: "string \<Rightarrow> string list \<Rightarrow> node list \<Rightarrow> jsstring list" where
  "nodesToProcess tag classList [] = []"
| "nodesToProcess tag classList (TextNode t # ns) =
     (if acceptNode tag classList t then [t] else []) @ nodesToProcess tag classList ns"
| "nodesToProcess tag classList (Element tag' classList' children # ns) =
     nodesToProcess tag' classList' children @ nodesToProcess tag classList ns"

text \<open>The \<open>for\<close> loop over the collected nodes; each of them still has its parent.\<close>

fun processElement_for ::
  "'e renderer \<Rightarrow> jsstring list \<Rightarrow> bool \<times> node list list \<times> call list \<times> nat \<Rightarrow>
   bool \<times> node list list \<times> call list \<times> nat" where
  "processElement_for renderMath [] state = state"
| "processElement_for renderMath (textNode # rest) (didRender, replaced, made, re) =
     (let out = replaceTextNodeWithMath renderMath textNode True re
      in processElement_for renderMath rest
           (if returned out then True else didRender,
            replaced @ [placed out], made @ calls out, reLastIndex out))"

text \<open>
  The tree after the loop: every collected text node, in document order, gives way to the
  nodes that its call placed.
\<close>

fun splice :: "string \<Rightarrow> string list \<Rightarrow> node list \<Rightarrow> node list list \<Rightarrow> node list \<times> node list list" where
  "splice tag classList [] replaced = ([], replaced)"
| "splice tag classList (TextNode t # ns) replaced =
     (if acceptNode tag classList t then
        (case replaced of
           [] \<Rightarrow> (case splice tag classList ns [] of (ns', rest) \<Rightarrow> (TextNode t # ns', rest))
         | p # replaced' \<Rightarrow>
             (case splice tag classList ns replaced' of (ns', rest) \<Rightarrow> (p @ ns', rest)))
      else
        (case splice tag classList ns replaced of (ns', rest) \<Rightarrow> (TextNode t # ns', rest)))"
| "splice tag classList (Element tag' classList' children # ns) replaced =
     (case splice tag' classList' children replaced of
        (children', replaced') \<Rightarrow>
          (case splice tag classList ns replaced' of
             (ns', rest) \<Rightarrow> (Element tag' classList' children' # ns', rest)))"

text \<open>
  \<open>processElement\<close> returns the element after the pass, the host calls in the order they
  were made and the \<open>lastIndex\<close> of the expression. Its argument is an element.
\<close>

fun processElement :: "'e renderer \<Rightarrow> node \<Rightarrow> nat \<Rightarrow> node \<times> call list \<times> nat" where
  "processElement renderMath (Element tag classList children) re =
     (case processElement_for renderMath (nodesToProcess tag classList children)
             (False, [], [], re) of
        (didRender, replaced, made, re') \<Rightarrow>
          (Element tag classList (fst (splice tag classList children replaced)),
           if didRender then made @ [FinishRenderMath] else made,
           re'))"
| "processElement renderMath (TextNode t) re = (TextNode t, [], re)"

section \<open>The live preview in closed form\<close>

text \<open>
  \<open>accepted\<close> is the condition under which the loop body reaches \<open>builder.add\<close>, and
  \<open>decoration_of\<close> the decoration it adds.
\<close>

definition accepted :: "text_range list \<Rightarrow> text_range list \<Rightarrow> nat \<Rightarrow> regexp_match \<Rightarrow> bool" where
  "accepted native cursors from m =
     (\<not> list_ex (\<lambda>r. rfrom r < from + index m + length (m0 m) \<and> rto r > from + index m) native \<and>
      \<not> list_ex (\<lambda>r. rfrom r \<le> from + index m + length (m0 m) \<and> rto r \<ge> from + index m) cursors)"

definition decoration_of :: "nat \<Rightarrow> regexp_match \<Rightarrow> decoration" where
  "decoration_of from m =
     \<lparr>dfrom = from + index m, dto = from + index m + length (m0 m),
      widget = \<lparr>formula = trim (m1 m)\<rparr>\<rparr>"

definition range_decorations ::
  "text_range list \<Rightarrow> text_range list \<Rightarrow> jsstring \<Rightarrow> text_range \<Rightarrow> decoration list" where
  "range_decorations native cursors d r =
     map (decoration_of (rfrom r))
       (filter (accepted native cursors (rfrom r)) (scan (sliceString d (rfrom r) (rto r)) 0))"

lemma buildDecorations_while_eq:
  "buildDecorations_while s base native cursors (builder, needsFinish, lastIndex) =
     (builder @ map (decoration_of base) (filter (accepted native cursors base) (scan s lastIndex)),
      needsFinish \<or> filter (accepted native cursors base) (scan s lastIndex) \<noteq> [],
      0)"
proof (induction s base native cursors "(builder, needsFinish, lastIndex)"
    arbitrary: builder needsFinish lastIndex rule: buildDecorations_while.induct)
  case (1 s base native cursors builder needsFinish lastIndex)
  obtain r lastIndex' where e: "exec s lastIndex = (r, lastIndex')"
    by (cases "exec s lastIndex")
  show ?case
  proof (cases r)
    case None
    with e have e': "exec s lastIndex = (None, lastIndex')" by simp
    then show ?thesis
      by (simp add: buildDecorations_while.simps [of s base native cursors builder needsFinish lastIndex]
          scan_None [OF e'] exec_None [OF e'])
  next
    case (Some m)
    with e have e': "exec s lastIndex = (Some m, lastIndex')" by simp
    note ih = "1.hyps" [OF e' [symmetric] refl refl refl refl refl]
    show ?thesis
    proof (cases "list_ex (\<lambda>r. rfrom r < base + index m + length (m0 m) \<and> rto r > base + index m) native")
      case True
      then have na: "\<not> accepted native cursors base m" by (simp add: accepted_def)
      from True e' na ih(1) show ?thesis
        by (simp add: buildDecorations_while.simps [of s base native cursors builder needsFinish lastIndex]
            scan_Some [OF e'] Let_def)
    next
      case False
      note nat = this
      show ?thesis
      proof (cases "list_ex (\<lambda>r. rfrom r \<le> base + index m + length (m0 m) \<and> rto r \<ge> base + index m) cursors")
        case True
        then have na: "\<not> accepted native cursors base m" by (simp add: accepted_def)
        from True nat e' na ih(2) show ?thesis
          by (simp add: buildDecorations_while.simps [of s base native cursors builder needsFinish lastIndex]
              scan_Some [OF e'] Let_def)
      next
        case False
        with nat have a: "accepted native cursors base m" by (simp add: accepted_def)
        from False nat e' a ih(3) show ?thesis
          by (simp add: buildDecorations_while.simps [of s base native cursors builder needsFinish lastIndex]
              scan_Some [OF e'] Let_def decoration_of_def)
      qed
    qed
  qed
qed

lemma buildDecorations_for_eq:
  "buildDecorations_for view native rs (builder, needsFinish, lastIndex) =
     (builder @ concat (map (range_decorations native (selection view) (doc view)) rs),
      needsFinish \<or> concat (map (range_decorations native (selection view) (doc view)) rs) \<noteq> [],
      if rs = [] then lastIndex else 0)"
proof (induction rs arbitrary: builder needsFinish lastIndex)
  case Nil
  show ?case by simp
next
  case (Cons r rs)
  show ?case
    by (simp add: buildDecorations_while_eq Cons.IH range_decorations_def)
qed

lemma buildDecorations_eq:
  "buildDecorations view lastIndex =
     (concat (map (range_decorations (nativeMathRanges view) (selection view) (doc view))
                (visibleRanges view)),
      if concat (map (range_decorations (nativeMathRanges view) (selection view) (doc view))
                   (visibleRanges view)) \<noteq> []
      then [FinishRenderMath] else [],
      if visibleRanges view = [] then lastIndex else 0)"
  by (simp add: buildDecorations_def buildDecorations_for_eq)

text \<open>The built file computes what the source computes when the tree has no math node.\<close>

lemma main_js_while_eq:
  "main_js_while s base cursors (builder, needsFinish, lastIndex) =
   buildDecorations_while s base [] cursors (builder, needsFinish, lastIndex)"
proof (induction s base cursors "(builder, needsFinish, lastIndex)"
    arbitrary: builder needsFinish lastIndex rule: main_js_while.induct)
  case (1 s base cursors builder needsFinish lastIndex)
  obtain r lastIndex' where e: "exec s lastIndex = (r, lastIndex')"
    by (cases "exec s lastIndex")
  show ?case
  proof (cases r)
    case None
    with e show ?thesis
      by (simp add: main_js_while.simps [of s base cursors builder needsFinish lastIndex]
          buildDecorations_while.simps [of s base "[]" cursors builder needsFinish lastIndex])
  next
    case (Some m)
    with e have e': "exec s lastIndex = (Some m, lastIndex')" by simp
    note ih = "1.hyps" [OF e' [symmetric] refl refl refl refl]
    show ?thesis
    proof (cases "list_ex (\<lambda>r. rfrom r \<le> base + index m + length (m0 m) \<and> rto r \<ge> base + index m) cursors")
      case True
      with e' ih(1) show ?thesis
        by (simp add: main_js_while.simps [of s base cursors builder needsFinish lastIndex]
            buildDecorations_while.simps [of s base "[]" cursors builder needsFinish lastIndex] Let_def)
    next
      case False
      with e' ih(2) show ?thesis
        by (simp add: main_js_while.simps [of s base cursors builder needsFinish lastIndex]
            buildDecorations_while.simps [of s base "[]" cursors builder needsFinish lastIndex] Let_def)
    qed
  qed
qed

lemma main_js_for_eq:
  "main_js_for view rs state = buildDecorations_for view [] rs state"
proof (induction rs arbitrary: state)
  case Nil
  show ?case by simp
next
  case (Cons r rs)
  obtain builder needsFinish lastIndex where "state = (builder, needsFinish, lastIndex)"
    by (cases state)
  then show ?case by (simp add: main_js_while_eq Cons.IH)
qed

lemma main_js_buildDecorations_eq:
  "main_js_buildDecorations view lastIndex =
     (concat (map (range_decorations [] (selection view) (doc view)) (visibleRanges view)),
      if concat (map (range_decorations [] (selection view) (doc view)) (visibleRanges view)) \<noteq> []
      then [FinishRenderMath] else [],
      if visibleRanges view = [] then lastIndex else 0)"
  by (simp add: main_js_buildDecorations_def main_js_for_eq buildDecorations_for_eq)

lemma main_js_is_source_without_math_nodes:
  "main_js_buildDecorations view lastIndex =
   buildDecorations (view\<lparr>syntaxTree := \<lambda>a b. []\<rparr>) lastIndex"
proof -
  have "nativeMathRanges (view\<lparr>syntaxTree := \<lambda>a b. []\<rparr>) = []"
    by (simp add: nativeMathRanges_def)
  then show ?thesis
    by (simp add: main_js_buildDecorations_eq buildDecorations_eq)
qed

subsection \<open>Which decorations a rebuild holds\<close>

lemma in_range_decorations:
  "d \<in> set (range_decorations native cursors dc r) \<longleftrightarrow>
   (\<exists>m\<in>set (scan (sliceString dc (rfrom r) (rto r)) 0).
      accepted native cursors (rfrom r) m \<and> d = decoration_of (rfrom r) m)"
  by (auto simp: range_decorations_def)

lemma in_buildDecorations:
  "d \<in> set (fst (buildDecorations view lastIndex)) \<longleftrightarrow>
   (\<exists>r\<in>set (visibleRanges view).
      d \<in> set (range_decorations (nativeMathRanges view) (selection view) (doc view) r))"
  by (simp add: buildDecorations_eq)

lemma in_main_js_buildDecorations:
  "d \<in> set (fst (main_js_buildDecorations view lastIndex)) \<longleftrightarrow>
   (\<exists>r\<in>set (visibleRanges view).
      d \<in> set (range_decorations [] (selection view) (doc view) r))"
  by (simp add: main_js_buildDecorations_eq)

lemma range_decorations_no_cursor:
  assumes "d \<in> set (range_decorations native cursors dc r)" and "sel \<in> set cursors"
  shows "\<not> (rfrom sel \<le> dto d \<and> rto sel \<ge> dfrom d)"
proof -
  from assms(1) obtain m where "accepted native cursors (rfrom r) m"
    and d: "d = decoration_of (rfrom r) m"
    unfolding in_range_decorations by blast
  then have "\<not> list_ex (\<lambda>s. rfrom s \<le> rfrom r + index m + length (m0 m) \<and>
      rto s \<ge> rfrom r + index m) cursors"
    by (simp add: accepted_def)
  with assms(2) have "\<not> (rfrom sel \<le> rfrom r + index m + length (m0 m) \<and>
      rto sel \<ge> rfrom r + index m)"
    unfolding list_ex_iff by blast
  then show ?thesis by (simp add: d decoration_of_def)
qed

lemma range_decorations_no_native:
  assumes "d \<in> set (range_decorations native cursors dc r)" and "n \<in> set native"
  shows "\<not> (rfrom n < dto d \<and> rto n > dfrom d)"
proof -
  from assms(1) obtain m where "accepted native cursors (rfrom r) m"
    and d: "d = decoration_of (rfrom r) m"
    unfolding in_range_decorations by blast
  then have "\<not> list_ex (\<lambda>s. rfrom s < rfrom r + index m + length (m0 m) \<and>
      rto s > rfrom r + index m) native"
    by (simp add: accepted_def)
  with assms(2) have "\<not> (rfrom n < rfrom r + index m + length (m0 m) \<and>
      rto n > rfrom r + index m)"
    unfolding list_ex_iff by blast
  then show ?thesis by (simp add: d decoration_of_def)
qed

lemma range_decorations_bounds:
  assumes "d \<in> set (range_decorations native cursors dc r)"
  shows "rfrom r \<le> dfrom d" and "dfrom d < dto d" and "dto d \<le> rto r"
proof -
  from assms obtain m where m: "m \<in> set (scan (sliceString dc (rfrom r) (rto r)) 0)"
    and d: "d = decoration_of (rfrom r) m"
    unfolding in_range_decorations by blast
  from scan_member [OF m] have b: "index m + length (m0 m) \<le> length (sliceString dc (rfrom r) (rto r))"
    and sp: "spaced_span (m0 m) (m1 m)" by simp_all
  have len: "5 \<le> length (m0 m)" using sp by (rule spaced_span_length)
  have "length (sliceString dc (rfrom r) (rto r)) \<le> rto r - rfrom r"
    by (simp add: sliceString_def)
  with b have "index m + length (m0 m) \<le> rto r - rfrom r" by simp
  moreover from len have "m0 m \<noteq> []" by auto
  ultimately show "rfrom r \<le> dfrom d" and "dfrom d < dto d" and "dto d \<le> rto r"
    using len by (simp_all add: d decoration_of_def)
qed

lemma range_decorations_sorted:
  "sorted_wrt (\<lambda>a b. dfrom a < dfrom b \<and> dto a \<le> dfrom b) (range_decorations native cursors dc r)"
proof -
  let ?s = "sliceString dc (rfrom r) (rto r)"
  have "sorted_wrt (\<lambda>a b. index a < index b \<and> index a + length (m0 a) \<le> index b) (scan ?s 0)"
  proof (rule sorted_wrt_mono_rel [OF _ scan_sorted])
    fix a b
    assume a: "a \<in> set (scan ?s 0)" and le: "index a + length (m0 a) \<le> index b"
    have "5 \<le> length (m0 a)"
      using scan_member [OF a] spaced_span_length [of "m0 a" "m1 a"] by simp
    with le show "index a < index b \<and> index a + length (m0 a) \<le> index b" by simp
  qed
  then have "sorted_wrt (\<lambda>a b. index a < index b \<and> index a + length (m0 a) \<le> index b)
      (filter (accepted native cursors (rfrom r)) (scan ?s 0))"
    by (rule sorted_wrt_filter)
  then show ?thesis
    by (simp add: range_decorations_def sorted_wrt_map decoration_of_def)
qed

lemma concat_range_decorations_sorted:
  assumes "sorted_wrt (\<lambda>a b. rto a \<le> rfrom b) rs"
  shows "sorted_wrt (\<lambda>a b. dfrom a < dfrom b \<and> dto a \<le> dfrom b)
           (concat (map (range_decorations native cursors dc) rs))"
  using assms
proof (induction rs)
  case Nil
  show ?case by simp
next
  case (Cons r rs)
  have "dfrom a < dfrom b \<and> dto a \<le> dfrom b"
    if a: "a \<in> set (range_decorations native cursors dc r)"
      and b: "b \<in> set (concat (map (range_decorations native cursors dc) rs))" for a b
  proof -
    from b obtain r' where r': "r' \<in> set rs" and b': "b \<in> set (range_decorations native cursors dc r')"
      by auto
    from Cons.prems r' have "rto r \<le> rfrom r'" by simp
    with range_decorations_bounds [OF a] range_decorations_bounds [OF b']
    show ?thesis by simp
  qed
  with Cons show ?case
    by (simp add: sorted_wrt_append range_decorations_sorted)
qed

section \<open>Trimming\<close>

lemma dropWhile_all: "(\<forall>c\<in>set (dropWhile P s). P c) \<longleftrightarrow> (\<forall>c\<in>set s. P c)"
proof
  assume a: "\<forall>c\<in>set (dropWhile P s). P c"
  have "dropWhile P s = []"
  proof (rule ccontr)
    assume ne: "dropWhile P s \<noteq> []"
    then have "\<not> P (hd (dropWhile P s))" by (rule hd_dropWhile)
    moreover from ne have "hd (dropWhile P s) \<in> set (dropWhile P s)" by simp
    ultimately show False using a by blast
  qed
  then show "\<forall>c\<in>set s. P c" by (simp add: dropWhile_eq_Nil_conv)
next
  assume "\<forall>c\<in>set s. P c"
  then show "\<forall>c\<in>set (dropWhile P s). P c"
    by (meson set_dropWhileD)
qed

lemma trim_eq_Nil: "trim s = [] \<longleftrightarrow> (\<forall>c\<in>set s. white_space c)"
proof -
  have "trim s = [] \<longleftrightarrow> (\<forall>c\<in>set (dropWhile white_space s). white_space c)"
    by (simp add: trim_def dropWhile_eq_Nil_conv)
  then show ?thesis by (simp add: dropWhile_all)
qed

section \<open>The reading view in closed form\<close>

text \<open>
  \<open>unit_of\<close> is the node the loop body appends for one match, and \<open>pieces\<close> the children
  it appends for a sequence of matches, with the text between them.
\<close>

definition unit_of :: "'e renderer \<Rightarrow> regexp_match \<Rightarrow> node" where
  "unit_of renderMath m =
     (case renderMath (trim (m1 m)) False of
        Inr (tag, classList, children) \<Rightarrow>
          Element tag (classList_add ''tolerant-math-inline'' classList) children
      | Inl e \<Rightarrow> TextNode (m0 m))"

definition rendered :: "'e renderer \<Rightarrow> regexp_match \<Rightarrow> bool" where
  "rendered renderMath m = (case renderMath (trim (m1 m)) False of Inr el \<Rightarrow> True | Inl e \<Rightarrow> False)"

fun pieces :: "'e renderer \<Rightarrow> jsstring \<Rightarrow> nat \<Rightarrow> regexp_match list \<Rightarrow> node list" where
  "pieces renderMath s lastIndex [] = []"
| "pieces renderMath s lastIndex (m # ms) =
     (if index m > lastIndex then [TextNode (slice s lastIndex (index m))] else []) @
     unit_of renderMath m # pieces renderMath s (index m + length (m0 m)) ms"

fun end_of :: "nat \<Rightarrow> regexp_match list \<Rightarrow> nat" where
  "end_of lastIndex [] = lastIndex"
| "end_of lastIndex (m # ms) = end_of (index m + length (m0 m)) ms"

lemma replaceTextNodeWithMath_while_eq:
  "replaceTextNodeWithMath_while renderMath s (frag, lastIndex, didReplace, made, re) =
     (frag @ pieces renderMath s lastIndex (scan s re),
      end_of lastIndex (scan s re),
      didReplace \<or> list_ex (rendered renderMath) (scan s re),
      made @ map (\<lambda>m. RenderMath (trim (m1 m)) False) (scan s re),
      0)"
proof (induction renderMath s "(frag, lastIndex, didReplace, made, re)"
    arbitrary: frag lastIndex didReplace made re rule: replaceTextNodeWithMath_while.induct)
  case (1 renderMath s frag lastIndex didReplace made re)
  obtain r re' where e: "exec s re = (r, re')"
    by (cases "exec s re")
  show ?case
  proof (cases r)
    case None
    with e have e': "exec s re = (None, re')" by simp
    then show ?thesis
      by (simp add: replaceTextNodeWithMath_while.simps [of renderMath s frag lastIndex didReplace made re]
          scan_None [OF e'] exec_None [OF e'])
  next
    case (Some m)
    with e have e': "exec s re = (Some m, re')" by simp
    let ?frag1 = "if index m > lastIndex then frag @ [TextNode (slice s lastIndex (index m))] else frag"
    show ?thesis
    proof (cases "renderMath (trim (m1 m)) False")
      case (Inl ex)
      note ih = "1.hyps"(1) [OF e' [symmetric] refl refl refl Inl]
      from Inl e' show ?thesis
        by (simp add: replaceTextNodeWithMath_while.simps [of renderMath s frag lastIndex didReplace made re]
            scan_Some [OF e'] ih unit_of_def rendered_def)
    next
      case (Inr el)
      obtain tag classList children where el: "el = (tag, classList, children)"
        by (cases el)
      note ih = "1.hyps"(2) [OF e' [symmetric] refl refl refl Inr el [symmetric] refl]
      from Inr el e' show ?thesis
        by (simp add: replaceTextNodeWithMath_while.simps [of renderMath s frag lastIndex didReplace made re]
            scan_Some [OF e'] ih unit_of_def rendered_def)
    qed
  qed
qed

lemma test_eq: "test s 0 = (scan s 0 \<noteq> [], snd (exec s 0))"
proof -
  obtain r re' where e: "exec s 0 = (r, re')" by (cases "exec s 0")
  show ?thesis
  proof (cases r)
    case None
    with e show ?thesis by (simp add: test_def scan_None)
  next
    case (Some m)
    with e show ?thesis by (simp add: test_def scan_Some)
  qed
qed

definition tail_text :: "jsstring \<Rightarrow> regexp_match list \<Rightarrow> node list" where
  "tail_text s ms = (if end_of 0 ms < length s then [TextNode (drop (end_of 0 ms) s)] else [])"

lemma replaceTextNodeWithMath_eq:
  "replaceTextNodeWithMath renderMath s hasParent re =
     (if scan s 0 = [] then
        \<lparr>returned = False, fragment = [], placed = [TextNode s], calls = [],
         reLastIndex = snd (exec s 0)\<rparr>
      else
        \<lparr>returned = list_ex (rendered renderMath) (scan s 0),
         fragment = pieces renderMath s 0 (scan s 0) @ tail_text s (scan s 0),
         placed = (if list_ex (rendered renderMath) (scan s 0) \<and> hasParent
                   then pieces renderMath s 0 (scan s 0) @ tail_text s (scan s 0)
                   else [TextNode s]),
         calls = map (\<lambda>m. RenderMath (trim (m1 m)) False) (scan s 0),
         reLastIndex = 0\<rparr>)"
  by (simp add: replaceTextNodeWithMath_def test_eq replaceTextNodeWithMath_while_eq tail_text_def Let_def)

lemma exec_fails_without_match: "scan s 0 = [] \<Longrightarrow> snd (exec s 0) = 0"
proof -
  assume a: "scan s 0 = []"
  obtain r re' where e: "exec s 0 = (r, re')" by (cases "exec s 0")
  show ?thesis
  proof (cases r)
    case None
    with e exec_None [of s 0 re'] show ?thesis by simp
  next
    case (Some m)
    with e a show ?thesis by (simp add: scan_Some)
  qed
qed

lemma returned_eq:
  "returned (replaceTextNodeWithMath renderMath s hasParent re) =
   list_ex (rendered renderMath) (scan s 0)"
  by (simp add: replaceTextNodeWithMath_eq)

lemma calls_eq:
  "calls (replaceTextNodeWithMath renderMath s hasParent re) =
   map (\<lambda>m. RenderMath (trim (m1 m)) False) (scan s 0)"
  by (simp add: replaceTextNodeWithMath_eq)

lemma placed_eq:
  "placed (replaceTextNodeWithMath renderMath s hasParent re) =
   (if list_ex (rendered renderMath) (scan s 0) \<and> hasParent
    then pieces renderMath s 0 (scan s 0) @ tail_text s (scan s 0)
    else [TextNode s])"
  by (simp add: replaceTextNodeWithMath_eq)

lemma fragment_eq:
  "scan s 0 \<noteq> [] \<Longrightarrow>
   fragment (replaceTextNodeWithMath renderMath s hasParent re) =
   pieces renderMath s 0 (scan s 0) @ tail_text s (scan s 0)"
  by (simp add: replaceTextNodeWithMath_eq)

lemma reLastIndex_eq: "reLastIndex (replaceTextNodeWithMath renderMath s hasParent re) = 0"
  by (simp add: replaceTextNodeWithMath_eq exec_fails_without_match)

lemma unit_in_pieces: "m \<in> set ms \<Longrightarrow> unit_of renderMath m \<in> set (pieces renderMath s lastIndex ms)"
  by (induction ms arbitrary: lastIndex) auto

lemma processElement_for_eq:
  "processElement_for renderMath ts (didRender, replaced, made, re) =
     (didRender \<or> list_ex (\<lambda>t. list_ex (rendered renderMath) (scan t 0)) ts,
      replaced @ map (\<lambda>t. placed (replaceTextNodeWithMath renderMath t True 0)) ts,
      made @ concat (map (\<lambda>t. map (\<lambda>m. RenderMath (trim (m1 m)) False) (scan t 0)) ts),
      if ts = [] then re else 0)"
proof (induction ts arbitrary: didRender replaced made re)
  case Nil
  show ?case by simp
next
  case (Cons t ts)
  show ?case
    by (simp add: Cons.IH Let_def returned_eq calls_eq reLastIndex_eq placed_eq)
qed

lemma processElement_eq:
  "processElement renderMath (Element tag classList children) re =
     (Element tag classList
        (fst (splice tag classList children
                (map (\<lambda>t. placed (replaceTextNodeWithMath renderMath t True 0))
                   (nodesToProcess tag classList children)))),
      concat (map (\<lambda>t. map (\<lambda>m. RenderMath (trim (m1 m)) False) (scan t 0))
                (nodesToProcess tag classList children)) @
      (if list_ex (\<lambda>t. list_ex (rendered renderMath) (scan t 0))
            (nodesToProcess tag classList children)
       then [FinishRenderMath] else []),
      if nodesToProcess tag classList children = [] then re else 0)"
  by (simp add: processElement_for_eq)

lemma splice_unchanged:
  "splice tag classList ns (map (\<lambda>t. [TextNode t]) (nodesToProcess tag classList ns) @ rest) =
   (ns, rest)"
proof (induction tag classList ns arbitrary: rest rule: nodesToProcess.induct)
  case (1 tag classList)
  show ?case by simp
next
  case (2 tag classList t ns)
  then show ?case by simp
next
  case (3 tag classList tag' classList' children ns)
  then show ?case by simp
qed

lemma rendered_iff:
  "rendered renderMath m \<longleftrightarrow> (\<exists>el. renderMath (trim (m1 m)) False = Inr el)"
  by (cases "renderMath (trim (m1 m)) False") (auto simp: rendered_def)

lemma not_rendered_iff:
  "\<not> rendered renderMath m \<longleftrightarrow> (\<exists>e. renderMath (trim (m1 m)) False = Inl e)"
  by (cases "renderMath (trim (m1 m)) False") (simp_all add: rendered_def)

lemma no_flush_among_renders:
  "filter (\<lambda>c. c = FinishRenderMath)
     (concat (map (\<lambda>t. map (\<lambda>m. RenderMath (trim (m1 m)) False) (scan t 0)) ts)) = []"
  by (induction ts) (simp_all add: filter_empty_conv)

lemma only_renders_among_renders:
  "filter (\<lambda>c. c \<noteq> FinishRenderMath)
     (concat (map (\<lambda>t. map (\<lambda>m. RenderMath (trim (m1 m)) False) (scan t 0)) ts)) =
   concat (map (\<lambda>t. map (\<lambda>m. RenderMath (trim (m1 m)) False) (scan t 0)) ts)"
  by (induction ts) (simp_all add: filter_id_conv)

text \<open>
  A renderer for the examples: it rejects the formula \<^verbatim>\<open>x^\<close> and typesets every other one
  as an empty \<open>SPAN\<close> of class \<open>math\<close>.
\<close>

definition example_renderMath :: "unit renderer" where
  "example_renderMath latex isBlock =
     (if latex = js ''x^'' then Inl () else Inr (''SPAN'', [''math''], []))"

section \<open>When an attempt succeeds\<close>

text \<open>
  The quantifiers find a match whenever some split of the input lets the rest of the
  pattern succeed: backtracking tries every split.
\<close>

lemma star_greedy_here: "k acc rest \<noteq> None \<Longrightarrow> star_greedy P k acc rest \<noteq> None"
  by (cases rest) (auto split: option.splits)

lemma star_greedy_complete:
  "list_all P m \<Longrightarrow> k (acc @ m) rest' \<noteq> None \<Longrightarrow> star_greedy P k acc (m @ rest') \<noteq> None"
proof (induction m arbitrary: acc)
  case Nil
  then show ?case by (simp add: star_greedy_here)
next
  case (Cons x xs)
  from Cons.prems have "star_greedy P k (acc @ [x]) (xs @ rest') \<noteq> None"
    by (intro Cons.IH) simp_all
  with Cons.prems(1) show ?case by (auto split: option.splits)
qed

lemma plus_greedy_complete:
  assumes "m \<noteq> []" and "list_all P m" and "k m rest' \<noteq> None"
  shows "plus_greedy P k (m @ rest') \<noteq> None"
proof -
  from assms(1) obtain x xs where m: "m = x # xs" by (cases m) auto
  with assms(2,3) have "star_greedy P k [x] (xs @ rest') \<noteq> None"
    by (intro star_greedy_complete) simp_all
  with m assms(2) show ?thesis by simp
qed

lemma star_lazy_here: "k acc rest \<noteq> None \<Longrightarrow> star_lazy P k acc rest \<noteq> None"
  by (cases rest) (auto split: option.splits)

lemma star_lazy_complete:
  "list_all P m \<Longrightarrow> k (acc @ m) rest' \<noteq> None \<Longrightarrow> star_lazy P k acc (m @ rest') \<noteq> None"
proof (induction m arbitrary: acc)
  case Nil
  then show ?case by (simp add: star_lazy_here)
next
  case (Cons x xs)
  from Cons.prems have "star_lazy P k (acc @ [x]) (xs @ rest') \<noteq> None"
    by (intro Cons.IH) simp_all
  with Cons.prems(1) show ?case by (auto split: option.splits)
qed

lemma plus_lazy_complete:
  assumes "m \<noteq> []" and "list_all P m" and "k m rest' \<noteq> None"
  shows "plus_lazy P k (m @ rest') \<noteq> None"
proof -
  from assms(1) obtain x xs where m: "m = x # xs" by (cases m) auto
  with assms(2,3) have "star_lazy P k [x] (xs @ rest') \<noteq> None"
    by (intro star_lazy_complete) simp_all
  with m assms(2) show ?thesis by simp
qed

lemma closing_complete:
  "post = [] \<or> hd post \<noteq> dollar \<Longrightarrow> closing p1 body p2 (dollar # post) \<noteq> None"
  by (cases post) auto

lemma TOLERANT_MATH_REGEX_complete:
  assumes "prev \<noteq> Some dollar"
    and "p1 \<noteq> []" "list_all hspace p1"
    and "body \<noteq> []" "list_all body_char body"
    and "p2 \<noteq> []" "list_all hspace p2"
    and "post = [] \<or> hd post \<noteq> dollar"
  shows "TOLERANT_MATH_REGEX prev (dollar # p1 @ body @ p2 @ dollar # post) \<noteq> None"
proof -
  have "plus_greedy hspace (\<lambda>q. closing p1 body q) (p2 @ dollar # post) \<noteq> None"
    using assms(6,7) closing_complete [OF assms(8)] by (rule plus_greedy_complete)
  then have "plus_lazy body_char (\<lambda>b. plus_greedy hspace (\<lambda>q. closing p1 b q))
      (body @ p2 @ dollar # post) \<noteq> None"
    using assms(4,5) by (intro plus_lazy_complete)
  then have "plus_greedy hspace (\<lambda>p. plus_lazy body_char (\<lambda>b. plus_greedy hspace (\<lambda>q. closing p b q)))
      (p1 @ body @ p2 @ dollar # post) \<noteq> None"
    using assms(2,3) by (intro plus_greedy_complete)
  with assms(1) show ?thesis by simp
qed

lemma until_dollar:
  "d \<notin> set a \<Longrightarrow> d \<notin> set x \<Longrightarrow> a @ d # r = x @ d # r' \<Longrightarrow> a = x \<and> r = r'"
proof (induction a arbitrary: x)
  case Nil
  then show ?case by (cases x) auto
next
  case (Cons c cs)
  then show ?case by (cases x) auto
qed

lemma hspace_white_space: "hspace c \<Longrightarrow> white_space c"
  by (auto simp: hspace_def white_space_def)

lemma trim_padded:
  assumes "list_all white_space p" and "list_all white_space q"
  shows "trim (p @ s @ q) = trim s"
proof -
  have front: "dropWhile white_space (p @ s @ q) = dropWhile white_space (s @ q)"
    using assms(1) by (simp add: list_all_iff dropWhile_append2)
  show ?thesis
  proof (cases "\<forall>c\<in>set s. white_space c")
    case True
    with assms(2) have dw: "dropWhile white_space (s @ q) = []"
      by (auto simp: list_all_iff dropWhile_eq_Nil_conv)
    have "trim (p @ s @ q) = rev (dropWhile white_space (rev (dropWhile white_space (s @ q))))"
      by (simp only: trim_def front)
    also have "\<dots> = []" by (simp only: dw) simp
    finally have "trim (p @ s @ q) = []" .
    moreover from True have "trim s = []" by (simp add: trim_eq_Nil)
    ultimately show ?thesis by simp
  next
    case False
    then obtain c where "c \<in> set s" and "\<not> white_space c" by blast
    then have "dropWhile white_space (s @ q) = dropWhile white_space s @ q"
      by (rule dropWhile_append1)
    then have "rev (dropWhile white_space (s @ q)) = rev q @ rev (dropWhile white_space s)"
      by simp
    moreover have "dropWhile white_space (rev q @ rev (dropWhile white_space s)) =
        dropWhile white_space (rev (dropWhile white_space s))"
      using assms(2) by (intro dropWhile_append2) (auto simp: list_all_iff)
    ultimately have "dropWhile white_space (rev (dropWhile white_space (s @ q))) =
        dropWhile white_space (rev (dropWhile white_space s))"
      by simp
    then show ?thesis by (simp only: trim_def front)
  qed
qed

lemma attempt_at_formula:
  assumes "prev \<noteq> Some dollar"
    and "3 \<le> length a" and "hspace (hd a)" and "hspace (last a)" and "list_all body_char a"
    and "post = [] \<or> hd post \<noteq> dollar"
  shows "\<exists>cap. TOLERANT_MATH_REGEX prev (dollar # a @ dollar # post) = Some (dollar # a @ [dollar], cap) \<and>
           trim cap = trim a"
proof -
  from assms(2) obtain x ys where a1: "a = x # ys" and "2 \<le> length ys"
    by (cases a) auto
  then have "ys \<noteq> []" by auto
  then obtain zs z where ys: "ys = zs @ [z]"
    by (cases ys rule: rev_cases) auto
  with \<open>2 \<le> length ys\<close> have zs: "zs \<noteq> []" by auto
  have a: "a = [x] @ zs @ [z]" using a1 ys by simp
  have x: "hspace x" using assms(3) a by simp
  have z: "hspace z" using assms(4) a by simp
  have b: "list_all body_char zs" using assms(5) a by simp
  have "TOLERANT_MATH_REGEX prev (dollar # [x] @ zs @ [z] @ dollar # post) \<noteq> None"
    using assms(1) _ _ zs b _ _ assms(6) by (rule TOLERANT_MATH_REGEX_complete) (simp_all add: x z)
  then obtain raw cap where
    r: "TOLERANT_MATH_REGEX prev (dollar # a @ dollar # post) = Some (raw, cap)"
    using a by auto
  from TOLERANT_MATH_REGEX_sound [OF r] obtain post' where
    split: "dollar # a @ dollar # post = raw @ post'" and sp: "spaced_span raw cap"
    by blast
  from sp obtain p1 p2 where raw: "raw = dollar # p1 @ cap @ p2 @ [dollar]"
    and p1: "list_all hspace p1" and cap: "list_all body_char cap" and p2: "list_all hspace p2"
    unfolding spaced_span_def by blast
  have nd: "dollar \<notin> set a"
    using assms(5) by (auto simp: list_all_iff dest: body_char_not_dollar)
  have nd': "dollar \<notin> set (p1 @ cap @ p2)"
    using p1 cap p2 by (auto simp: list_all_iff dest: body_char_not_dollar hspace_not_dollar)
  from split raw have "a @ dollar # post = (p1 @ cap @ p2) @ dollar # post'" by simp
  from until_dollar [OF nd nd' this] have eq: "a = p1 @ cap @ p2" by simp
  then have "raw = dollar # a @ [dollar]" using raw by simp
  moreover have "trim cap = trim a"
    unfolding eq using p1 p2
    by (intro trim_padded [symmetric]) (auto simp: list_all_iff hspace_white_space)
  ultimately show ?thesis using r by blast
qed

lemma search_skip:
  "dollar \<notin> set pre \<Longrightarrow>
   search prev i (pre @ rest) =
   search (if pre = [] then prev else Some (last pre)) (i + length pre) rest"
proof (induction pre arbitrary: prev i)
  case Nil
  show ?case by simp
next
  case (Cons c cs)
  then have "c \<noteq> dollar" and "dollar \<notin> set cs" by auto
  with Cons.IH [of "Some c" "Suc i"] show ?case by simp
qed

lemma search_none: "dollar \<notin> set s \<Longrightarrow> search prev i s = None"
  using search_skip [of s prev i "[]"] by simp

lemma exec_finds:
  assumes s: "s = pre @ dollar # a @ dollar # post"
    and li: "lastIndex \<le> length pre"
    and nd: "dollar \<notin> set (drop lastIndex pre)"
    and before: "pre = [] \<or> last pre \<noteq> dollar"
    and a: "3 \<le> length a" "hspace (hd a)" "hspace (last a)" "list_all body_char a"
    and after: "post = [] \<or> hd post \<noteq> dollar"
  shows "\<exists>cap. exec s lastIndex =
             (Some \<lparr>index = length pre, m0 = dollar # a @ [dollar], m1 = cap\<rparr>,
              length pre + length a + 2) \<and>
           trim cap = trim a"
proof -
  let ?skip = "drop lastIndex pre"
  let ?start = "if lastIndex = 0 then None else Some (s ! (lastIndex - 1))"
  let ?prev = "if ?skip = [] then ?start else Some (last ?skip)"
  have d: "drop lastIndex s = ?skip @ dollar # a @ dollar # post"
    using s li by simp
  have len: "lastIndex + length ?skip = length pre"
    using li by simp
  have prev: "?prev \<noteq> Some dollar"
  proof (cases "?skip = []")
    case False
    then have "last ?skip \<in> set ?skip" by (rule last_in_set)
    with nd False show ?thesis by auto
  next
    case True
    with li have eq: "lastIndex = length pre" by simp
    show ?thesis
    proof (cases "lastIndex = 0")
      case True
      with \<open>?skip = []\<close> show ?thesis by simp
    next
      case False
      with eq have ne: "pre \<noteq> []" by auto
      then have "s ! (lastIndex - 1) = last pre"
        using eq s by (simp add: nth_append last_conv_nth)
      with before ne False \<open>?skip = []\<close> show ?thesis by simp
    qed
  qed
  from attempt_at_formula [OF prev a after] obtain cap where
    r: "TOLERANT_MATH_REGEX ?prev (dollar # a @ dollar # post) = Some (dollar # a @ [dollar], cap)"
    and t: "trim cap = trim a"
    by blast
  have "search ?start lastIndex (drop lastIndex s) =
      search ?prev (lastIndex + length ?skip) (dollar # a @ dollar # post)"
    unfolding d using nd by (rule search_skip)
  also have "\<dots> = Some \<lparr>index = length pre, m0 = dollar # a @ [dollar], m1 = cap\<rparr>"
    unfolding len using r by simp
  finally have "search ?start lastIndex (drop lastIndex s) =
      Some \<lparr>index = length pre, m0 = dollar # a @ [dollar], m1 = cap\<rparr>" .
  moreover have "\<not> length s < lastIndex" using s li by simp
  ultimately have "exec s lastIndex =
      (Some \<lparr>index = length pre, m0 = dollar # a @ [dollar], m1 = cap\<rparr>,
       length pre + length a + 2)"
    by (simp add: exec_def)
  with t show ?thesis by blast
qed

lemma exec_none_without_dollar:
  assumes "lastIndex \<le> length s" and "dollar \<notin> set (drop lastIndex s)"
  shows "exec s lastIndex = (None, 0)"
  using assms by (simp add: exec_def search_none)

text \<open>
  Two spaced formulas that stand apart: the text has exactly four dollars, the delimiters of
  the two formulas, and at least one code unit lies between the formulas.
\<close>

lemma scan_two_formulas:
  assumes "dollar \<notin> set pre" and "dollar \<notin> set mid" and "mid \<noteq> []" and "dollar \<notin> set post"
    and a: "3 \<le> length a" "hspace (hd a)" "hspace (last a)" "list_all body_char a"
    and b: "3 \<le> length b" "hspace (hd b)" "hspace (last b)" "list_all body_char b"
  shows "\<exists>c1 c2.
           scan (pre @ dollar # a @ dollar # mid @ dollar # b @ dollar # post) 0 =
             [\<lparr>index = length pre, m0 = dollar # a @ [dollar], m1 = c1\<rparr>,
              \<lparr>index = length pre + length a + 2 + length mid, m0 = dollar # b @ [dollar], m1 = c2\<rparr>] \<and>
           trim c1 = trim a \<and> trim c2 = trim b"
proof -
  let ?s = "pre @ dollar # a @ dollar # mid @ dollar # b @ dollar # post"
  let ?pre2 = "pre @ dollar # a @ dollar # mid"
  let ?e1 = "length pre + length a + 2"
  let ?e2 = "length ?pre2 + length b + 2"
  have hm: "hd mid \<noteq> dollar" using assms(2,3) by (cases mid) auto
  have lp: "pre = [] \<or> last pre \<noteq> dollar" using assms(1) by (metis last_in_set)
  from exec_finds [of ?s pre a "mid @ dollar # b @ dollar # post" 0, OF refl _ _ lp a]
    assms(1,3) hm
  obtain c1 where e1: "exec ?s 0 =
      (Some \<lparr>index = length pre, m0 = dollar # a @ [dollar], m1 = c1\<rparr>, ?e1)"
    and t1: "trim c1 = trim a"
    by auto
  have s2: "?s = ?pre2 @ dollar # b @ dollar # post" by simp
  have dr: "drop ?e1 ?pre2 = mid" by simp
  have "last ?pre2 = last mid" using assms(3) by simp
  moreover have "last mid \<in> set mid" using assms(3) by (rule last_in_set)
  ultimately have lm: "?pre2 = [] \<or> last ?pre2 \<noteq> dollar"
    using assms(2) by auto
  have hp: "post = [] \<or> hd post \<noteq> dollar" using assms(4) by (cases post) auto
  have "\<exists>cap. exec ?s ?e1 =
      (Some \<lparr>index = length ?pre2, m0 = dollar # b @ [dollar], m1 = cap\<rparr>, ?e2) \<and>
      trim cap = trim b"
    using s2 _ _ lm b hp by (rule exec_finds) (simp_all add: assms(2))
  then obtain c2 where e2: "exec ?s ?e1 =
      (Some \<lparr>index = length ?pre2, m0 = dollar # b @ [dollar], m1 = c2\<rparr>, ?e2)"
    and t2: "trim c2 = trim b"
    by blast
  define w where "w = ?pre2 @ dollar # b @ [dollar]"
  have "?s = w @ post" and "length w = ?e2" by (simp_all add: w_def)
  then have "drop ?e2 ?s = post" by (simp only: drop_append) simp
  then have e3: "exec ?s ?e2 = (None, 0)"
    using assms(4) by (intro exec_none_without_dollar) simp_all
  have "scan ?s 0 = [\<lparr>index = length pre, m0 = dollar # a @ [dollar], m1 = c1\<rparr>,
      \<lparr>index = length ?pre2, m0 = dollar # b @ [dollar], m1 = c2\<rparr>]"
    by (simp only: scan_Some [OF e1] scan_Some [OF e2] scan_None [OF e3])
  then have "scan ?s 0 = [\<lparr>index = length pre, m0 = dollar # a @ [dollar], m1 = c1\<rparr>,
      \<lparr>index = length pre + length a + 2 + length mid, m0 = dollar # b @ [dollar], m1 = c2\<rparr>]"
    by simp
  with t1 t2 show ?thesis by blast
qed

text \<open>
  The conditions are needed. Two formulas that touch give no match, since the second dollar
  of \<^verbatim>\<open>$$\<close> may neither close the first formula nor open the second; and a further dollar
  before the formulas pairs the delimiters differently.
\<close>

lemma formulas_that_do_not_stand_apart:
  "scan (js ''$ a $$ b $'') 0 = [] \<and>
   map (\<lambda>m. (index m, m0 m)) (scan (js ''$ x, $ a $ and $ b $'') 0) =
     [(0, js ''$ x, $''), (9, js ''$ and $'')]"
  by (simp add: matcher_eval)

section \<open>The native-math check of the source\<close>

text \<open>
  In a rebuild by the TypeScript source, take any match of any visible range, with
  \<open>matchFrom\<close> and \<open>matchTo\<close> as the loop computes them. When some native math range passes
  the half-open test \<open>from < matchTo \<and> to > matchFrom\<close>, no decoration with the span of the
  match is emitted. When every native math range ends at or before \<open>matchFrom\<close> or begins at
  or after \<open>matchTo\<close> (touching the boundary is allowed) and no selection range overlaps the
  match, the match is decorated. The native math ranges are those of the syntax-tree nodes
  whose lower-cased name includes \<open>math\<close>.
\<close>

lemma native_overlap_rejects:
  assumes "r \<in> set (visibleRanges view)"
    and "m \<in> set (scan (sliceString (doc view) (rfrom r) (rto r)) 0)"
    and "matchFrom = rfrom r + index m"
    and "matchTo = matchFrom + length (m0 m)"
  shows "((\<exists>n\<in>set (nativeMathRanges view). rfrom n < matchTo \<and> rto n > matchFrom) \<longrightarrow>
          \<not> (\<exists>d\<in>set (fst (buildDecorations view lastIndex)).
                dfrom d = matchFrom \<and> dto d = matchTo)) \<and>
         ((\<forall>n\<in>set (nativeMathRanges view). rto n \<le> matchFrom \<or> matchTo \<le> rfrom n) \<and>
          (\<forall>sel\<in>set (selection view). \<not> (rfrom sel \<le> matchTo \<and> rto sel \<ge> matchFrom)) \<longrightarrow>
          \<lparr>dfrom = matchFrom, dto = matchTo, widget = \<lparr>formula = trim (m1 m)\<rparr>\<rparr>
            \<in> set (fst (buildDecorations view lastIndex)))"
proof (intro conjI impI)
  assume "\<exists>n\<in>set (nativeMathRanges view). rfrom n < matchTo \<and> rto n > matchFrom"
  then obtain n where n: "n \<in> set (nativeMathRanges view)"
    and ov: "rfrom n < matchTo \<and> rto n > matchFrom" by blast
  show "\<not> (\<exists>d\<in>set (fst (buildDecorations view lastIndex)).
              dfrom d = matchFrom \<and> dto d = matchTo)"
  proof
    assume "\<exists>d\<in>set (fst (buildDecorations view lastIndex)).
              dfrom d = matchFrom \<and> dto d = matchTo"
    then obtain d where d: "d \<in> set (fst (buildDecorations view lastIndex))"
      and span: "dfrom d = matchFrom" "dto d = matchTo"
      by blast
    from d obtain r' where
      "d \<in> set (range_decorations (nativeMathRanges view) (selection view) (doc view) r')"
      unfolding in_buildDecorations by blast
    from range_decorations_no_native [OF this n] ov show False
      by (simp add: span)
  qed
next
  assume h: "(\<forall>n\<in>set (nativeMathRanges view). rto n \<le> matchFrom \<or> matchTo \<le> rfrom n) \<and>
     (\<forall>sel\<in>set (selection view). \<not> (rfrom sel \<le> matchTo \<and> rto sel \<ge> matchFrom))"
  have "accepted (nativeMathRanges view) (selection view) (rfrom r) m"
    unfolding accepted_def list_ex_iff using h assms(3,4) by fastforce
  with assms(2) have "decoration_of (rfrom r) m
      \<in> set (range_decorations (nativeMathRanges view) (selection view) (doc view) r)"
    unfolding in_range_decorations by blast
  with assms(1) have "decoration_of (rfrom r) m \<in> set (fst (buildDecorations view lastIndex))"
    unfolding in_buildDecorations by blast
  then show "\<lparr>dfrom = matchFrom, dto = matchTo, widget = \<lparr>formula = trim (m1 m)\<rparr>\<rparr>
      \<in> set (fst (buildDecorations view lastIndex))"
    by (simp add: decoration_of_def assms(3,4))
qed

lemma native_overlap_rejects_example:
  "\<not> (\<exists>d\<in>set (fst (buildDecorations
              \<lparr>doc = js ''$a$ and $b$'', visibleRanges = [\<lparr>rfrom = 0, rto = 11\<rparr>],
               selection = [\<lparr>rfrom = 11, rto = 11\<rparr>],
               syntaxTree = \<lambda>a b. [\<lparr>name = ''Document'', nfrom = 0, nto = 11\<rparr>,
                                    \<lparr>name = ''InlineMath'', nfrom = 0, nto = 3\<rparr>,
                                    \<lparr>name = ''InlineMath'', nfrom = 8, nto = 11\<rparr>]\<rparr> 0)).
         dfrom d = 2 \<and> dto d = 9) \<and>
   \<lparr>dfrom = 2, dto = 7, widget = \<lparr>formula = js ''c''\<rparr>\<rparr>
     \<in> set (fst (buildDecorations
              \<lparr>doc = js ''ab$ c $xy'', visibleRanges = [\<lparr>rfrom = 0, rto = 9\<rparr>],
               selection = [\<lparr>rfrom = 9, rto = 9\<rparr>],
               syntaxTree = \<lambda>a b. [\<lparr>name = ''math'', nfrom = 0, nto = 2\<rparr>,
                                    \<lparr>name = ''math'', nfrom = 7, nto = 9\<rparr>]\<rparr> 0))"
proof -
  let ?A = "\<lparr>doc = js ''$a$ and $b$'', visibleRanges = [\<lparr>rfrom = 0, rto = 11\<rparr>],
               selection = [\<lparr>rfrom = 11, rto = 11\<rparr>],
               syntaxTree = \<lambda>a b. [\<lparr>name = ''Document'', nfrom = 0, nto = 11\<rparr>,
                                    \<lparr>name = ''InlineMath'', nfrom = 0, nto = 3\<rparr>,
                                    \<lparr>name = ''InlineMath'', nfrom = 8, nto = 11\<rparr>]\<rparr>"
  let ?B = "\<lparr>doc = js ''ab$ c $xy'', visibleRanges = [\<lparr>rfrom = 0, rto = 9\<rparr>],
               selection = [\<lparr>rfrom = 9, rto = 9\<rparr>],
               syntaxTree = \<lambda>a b. [\<lparr>name = ''math'', nfrom = 0, nto = 2\<rparr>,
                                    \<lparr>name = ''math'', nfrom = 7, nto = 9\<rparr>]\<rparr>"
  let ?mA = "\<lparr>index = 2, m0 = js ''$ and $'', m1 = js ''and''\<rparr>"
  let ?mB = "\<lparr>index = 2, m0 = js ''$ c $'', m1 = js ''c''\<rparr>"
  have nA: "nativeMathRanges ?A = [\<lparr>rfrom = 0, rto = 3\<rparr>, \<lparr>rfrom = 8, rto = 11\<rparr>]"
    by code_simp
  have nB: "nativeMathRanges ?B = [\<lparr>rfrom = 0, rto = 2\<rparr>, \<lparr>rfrom = 7, rto = 9\<rparr>]"
    by code_simp
  have a1: "\<lparr>rfrom = 0, rto = 11\<rparr> \<in> set (visibleRanges ?A)" by simp
  have a2: "?mA \<in> set (scan (sliceString (doc ?A) (rfrom \<lparr>rfrom = 0, rto = 11\<rparr>)
      (rto \<lparr>rfrom = 0, rto = 11\<rparr>)) 0)"
    by (simp add: sliceString_def matcher_eval)
  have a3: "2 = rfrom \<lparr>rfrom = 0, rto = 11\<rparr> + index ?mA" by simp
  have a4: "9 = 2 + length (m0 ?mA)" by (simp add: js_def)
  have a5: "\<exists>n\<in>set (nativeMathRanges ?A). rfrom n < 9 \<and> rto n > 2"
    unfolding nA by simp
  have b1: "\<lparr>rfrom = 0, rto = 9\<rparr> \<in> set (visibleRanges ?B)" by simp
  have b2: "?mB \<in> set (scan (sliceString (doc ?B) (rfrom \<lparr>rfrom = 0, rto = 9\<rparr>)
      (rto \<lparr>rfrom = 0, rto = 9\<rparr>)) 0)"
    by (simp add: sliceString_def matcher_eval)
  have b3: "2 = rfrom \<lparr>rfrom = 0, rto = 9\<rparr> + index ?mB" by simp
  have b4: "7 = 2 + length (m0 ?mB)" by (simp add: js_def)
  have b5: "(\<forall>n\<in>set (nativeMathRanges ?B). rto n \<le> 2 \<or> 7 \<le> rfrom n) \<and>
      (\<forall>sel\<in>set (selection ?B). \<not> (rfrom sel \<le> 7 \<and> rto sel \<ge> 2))"
    unfolding nB by simp
  have tr: "trim (m1 ?mB) = js ''c''"
    by (simp add: trim_def js_def white_space_def)
  from native_overlap_rejects [OF a1 a2 a3 a4, of 0] a5
  have "\<not> (\<exists>d\<in>set (fst (buildDecorations ?A 0)). dfrom d = 2 \<and> dto d = 9)"
    by blast
  moreover from native_overlap_rejects [OF b1 b2 b3 b4, of 0] b5
  have "\<lparr>dfrom = 2, dto = 7, widget = \<lparr>formula = trim (m1 ?mB)\<rparr>\<rparr>
      \<in> set (fst (buildDecorations ?B 0))"
    by blast
  ultimately show ?thesis unfolding tr by blast
qed

section \<open>The claims\<close>

text \<open>
  Claim C1. Every match that a scan of any text yields, from any \<open>lastIndex\<close>, begins with
  a dollar that a space or a tab follows and ends with a dollar that a space or a tab
  precedes, so a dollar-delimited span that lacks the interior padding on either side is
  never a match. In particular \<^verbatim>\<open>$formula$\<close>, \<^verbatim>\<open>$ formula$\<close>, \<^verbatim>\<open>$formula $\<close> and
  \<^verbatim>\<open>The price is $5 and $10.\<close> yield no match.
\<close>

theorem padding_required:
  "(\<forall>m\<in>set (scan text lastIndex).
      text ! index m = dollar \<and>
      hspace (text ! (index m + 1)) \<and>
      hspace (text ! (index m + length (m0 m) - 2)) \<and>
      text ! (index m + length (m0 m) - 1) = dollar \<and>
      index m + length (m0 m) \<le> length text) \<and>
   scan (js ''$formula$'') 0 = [] \<and>
   scan (js ''$ formula$'') 0 = [] \<and>
   scan (js ''$formula $'') 0 = [] \<and>
   scan (js ''The price is $5 and $10.'') 0 = []"
proof -
  have "text ! index m = dollar \<and>
      hspace (text ! (index m + 1)) \<and>
      hspace (text ! (index m + length (m0 m) - 2)) \<and>
      text ! (index m + length (m0 m) - 1) = dollar \<and>
      index m + length (m0 m) \<le> length text"
    if m: "m \<in> set (scan text lastIndex)" for m
  proof -
    from scan_member [OF m] have bound: "index m + length (m0 m) \<le> length text"
      and sp: "spaced_span (m0 m) (m1 m)"
      and sl: "take (length (m0 m)) (drop (index m) text) = m0 m"
      by simp_all
    have len: "5 \<le> length (m0 m)" using sp by (rule spaced_span_length)
    have at: "text ! (index m + k) = m0 m ! k" if "k < length (m0 m)" for k
      using sl that by (rule nth_of_slice)
    have "0 < length (m0 m)" using len by linarith
    then have "text ! (index m + 0) = dollar"
      using at [of 0] spaced_span_shape(1) [OF sp] by simp
    moreover have "hspace (text ! (index m + 1))"
      using at [of 1] len spaced_span_shape(2) [OF sp] by simp
    moreover have "hspace (text ! (index m + (length (m0 m) - 2)))"
      using at [of "length (m0 m) - 2"] len spaced_span_shape(3) [OF sp] by simp
    moreover have "text ! (index m + (length (m0 m) - 1)) = dollar"
      using at [of "length (m0 m) - 1"] len spaced_span_shape(4) [OF sp] by simp
    ultimately show ?thesis using bound len by simp
  qed
  moreover have "scan (js ''$formula$'') 0 = []"
    by (simp add: matcher_eval)
  moreover have "scan (js ''$ formula$'') 0 = []"
    by (simp add: matcher_eval)
  moreover have "scan (js ''$formula $'') 0 = []"
    by (simp add: matcher_eval)
  moreover have "scan (js ''The price is $5 and $10.'') 0 = []"
    by (simp add: matcher_eval)
  ultimately show ?thesis by blast
qed

theorem padding_required_witness:
  "\<lparr>index = 1, m0 = js ''$ x^2 $'', m1 = js ''x^2''\<rparr> \<in> set (scan (js ''=$ x^2 $.'') 0) \<and>
   js ''=$ x^2 $.'' ! 1 = dollar \<and> hspace (js ''=$ x^2 $.'' ! 2) \<and>
   hspace (js ''=$ x^2 $.'' ! 6) \<and> js ''=$ x^2 $.'' ! 7 = dollar"
proof -
  have m: "\<lparr>index = 1, m0 = js ''$ x^2 $'', m1 = js ''x^2''\<rparr> \<in> set (scan (js ''=$ x^2 $.'') 0)"
    by (simp add: matcher_eval)
  have l: "length (js ''$ x^2 $'') = 7" by (simp add: js_def)
  from padding_required [of "js ''=$ x^2 $.''" 0]
  have "\<forall>m\<in>set (scan (js ''=$ x^2 $.'') 0).
      js ''=$ x^2 $.'' ! index m = dollar \<and>
      hspace (js ''=$ x^2 $.'' ! (index m + 1)) \<and>
      hspace (js ''=$ x^2 $.'' ! (index m + length (m0 m) - 2)) \<and>
      js ''=$ x^2 $.'' ! (index m + length (m0 m) - 1) = dollar \<and>
      index m + length (m0 m) \<le> length (js ''=$ x^2 $.'')"
    by (rule conjunct1)
  from bspec [OF this m] l m show ?thesis by (simp add: numeral_2_eq_2)
qed

text \<open>
  Claim C2. In a rebuild of the live preview, take any match \<open>m\<close> of any visible range
  \<open>r\<close>, with \<open>matchFrom = r.from + m.index\<close> and \<open>matchTo = matchFrom + m[0].length\<close>. When
  some selection range passes the inclusive test \<open>from \<le> matchTo \<and> to \<ge> matchFrom\<close>, no
  decoration with the span of the match is emitted, by the TypeScript source and by the built
  \<open>main.js\<close> alike. A selection range (from \<open>\<le>\<close> to, a cursor when they are equal) that sits
  exactly on a boundary, \<open>from = matchTo\<close> or \<open>to = matchFrom\<close>, passes the test.
\<close>

theorem selection_overlap_suppresses:
  assumes "r \<in> set (visibleRanges view)"
    and "m \<in> set (scan (sliceString (doc view) (rfrom r) (rto r)) 0)"
    and "matchFrom = rfrom r + index m"
    and "matchTo = matchFrom + length (m0 m)"
    and "sel \<in> set (selection view)"
    and "rfrom sel \<le> matchTo \<and> rto sel \<ge> matchFrom \<or>
         rfrom sel \<le> rto sel \<and> (rfrom sel = matchTo \<or> rto sel = matchFrom)"
  shows "\<not> (\<exists>d\<in>set (fst (buildDecorations view lastIndex)) \<union>
                 set (fst (main_js_buildDecorations view lastIndex)).
              dfrom d = matchFrom \<and> dto d = matchTo)"
proof
  assume "\<exists>d\<in>set (fst (buildDecorations view lastIndex)) \<union>
              set (fst (main_js_buildDecorations view lastIndex)).
            dfrom d = matchFrom \<and> dto d = matchTo"
  then obtain d where d: "d \<in> set (fst (buildDecorations view lastIndex)) \<union>
      set (fst (main_js_buildDecorations view lastIndex))"
    and span: "dfrom d = matchFrom" "dto d = matchTo"
    by blast
  from d obtain native r' where "d \<in> set (range_decorations native (selection view) (doc view) r')"
    unfolding Un_iff in_buildDecorations in_main_js_buildDecorations by blast
  from range_decorations_no_cursor [OF this assms(5)]
  have no: "\<not> (rfrom sel \<le> matchTo \<and> rto sel \<ge> matchFrom)"
    by (simp add: span)
  have "matchFrom \<le> matchTo" using assms(4) by simp
  with assms(6) no show False by auto
qed

theorem selection_overlap_suppresses_witness:
  "\<lparr>index = 0, m0 = js ''$ a $'', m1 = js ''a''\<rparr> \<in> set (scan (sliceString (js ''$ a $'') 0 5) 0) \<and>
   \<not> (\<exists>d\<in>set (fst (buildDecorations
                \<lparr>doc = js ''$ a $'', visibleRanges = [\<lparr>rfrom = 0, rto = 5\<rparr>],
                 selection = [\<lparr>rfrom = 5, rto = 5\<rparr>], syntaxTree = \<lambda>a b. []\<rparr> 0)) \<union>
            set (fst (main_js_buildDecorations
                \<lparr>doc = js ''$ a $'', visibleRanges = [\<lparr>rfrom = 0, rto = 5\<rparr>],
                 selection = [\<lparr>rfrom = 5, rto = 5\<rparr>], syntaxTree = \<lambda>a b. []\<rparr> 0)).
         dfrom d = 0 \<and> dto d = 5)"
proof -
  let ?view = "\<lparr>doc = js ''$ a $'', visibleRanges = [\<lparr>rfrom = 0, rto = 5\<rparr>],
                 selection = [\<lparr>rfrom = 5, rto = 5\<rparr>], syntaxTree = \<lambda>a b. []\<rparr>"
  let ?m = "\<lparr>index = 0, m0 = js ''$ a $'', m1 = js ''a''\<rparr>"
  have sl: "sliceString (js ''$ a $'') 0 5 = js ''$ a $''"
    by (simp add: sliceString_def js_def)
  have m: "?m \<in> set (scan (sliceString (js ''$ a $'') 0 5) 0)"
    unfolding sl by (simp add: matcher_eval)
  let ?r = "\<lparr>rfrom = 0, rto = 5\<rparr>"
  let ?sel = "\<lparr>rfrom = 5, rto = 5\<rparr>"
  have h1: "?r \<in> set (visibleRanges ?view)" by simp
  have h2: "?m \<in> set (scan (sliceString (doc ?view) (rfrom ?r) (rto ?r)) 0)"
    using m by simp
  have h3: "0 = rfrom ?r + index ?m" by simp
  have h4: "5 = 0 + length (m0 ?m)" by (simp add: js_def)
  have h5: "?sel \<in> set (selection ?view)" by simp
  have h6: "rfrom ?sel \<le> 5 \<and> rto ?sel \<ge> 0 \<or>
      rfrom ?sel \<le> rto ?sel \<and> (rfrom ?sel = 5 \<or> rto ?sel = 0)" by simp
  from selection_overlap_suppresses [OF h1 h2 h3 h4 h5 h6, of 0] m
  show ?thesis by blast
qed

text \<open>
  Claim C3. The TypeScript source rejects every match that a native math range overlaps
  under the half-open test \<open>from < matchTo \<and> to > matchFrom\<close>, and keeps a match that the
  native ranges only touch (lemma \<open>native_overlap_rejects\<close>). The built \<open>main.js\<close> is the
  older copy of the source: it reads no syntax tree and makes no such test (lemma
  \<open>main_js_is_source_without_math_nodes\<close>). On the document \<^verbatim>\<open>$a$ and $b$\<close>, whose syntax
  tree marks \<open>[0, 3)\<close> and \<open>[8, 11)\<close> as inline math, with the whole text visible and the
  cursor at the end of the text, the pattern matches \<^verbatim>\<open>$ and $\<close> at \<open>[2, 9)\<close>; a native
  range overlaps this match; the source emits no decoration, and \<open>main.js\<close> decorates
  \<open>[2, 9)\<close> with the formula \<open>and\<close>.
\<close>

theorem main_js_decorates_over_native_math:
  "nativeMathRanges
     \<lparr>doc = js ''$a$ and $b$'', visibleRanges = [\<lparr>rfrom = 0, rto = 11\<rparr>],
      selection = [\<lparr>rfrom = 11, rto = 11\<rparr>],
      syntaxTree = \<lambda>a b. [\<lparr>name = ''Document'', nfrom = 0, nto = 11\<rparr>,
                           \<lparr>name = ''InlineMath'', nfrom = 0, nto = 3\<rparr>,
                           \<lparr>name = ''InlineMath'', nfrom = 8, nto = 11\<rparr>]\<rparr> =
     [\<lparr>rfrom = 0, rto = 3\<rparr>, \<lparr>rfrom = 8, rto = 11\<rparr>] \<and>
   scan (sliceString (js ''$a$ and $b$'') 0 11) 0 =
     [\<lparr>index = 2, m0 = js ''$ and $'', m1 = js ''and''\<rparr>] \<and>
   (\<exists>n\<in>set (nativeMathRanges
        \<lparr>doc = js ''$a$ and $b$'', visibleRanges = [\<lparr>rfrom = 0, rto = 11\<rparr>],
         selection = [\<lparr>rfrom = 11, rto = 11\<rparr>],
         syntaxTree = \<lambda>a b. [\<lparr>name = ''Document'', nfrom = 0, nto = 11\<rparr>,
                              \<lparr>name = ''InlineMath'', nfrom = 0, nto = 3\<rparr>,
                              \<lparr>name = ''InlineMath'', nfrom = 8, nto = 11\<rparr>]\<rparr>).
      rfrom n < 2 + length (js ''$ and $'') \<and> rto n > 2) \<and>
   fst (main_js_buildDecorations
          \<lparr>doc = js ''$a$ and $b$'', visibleRanges = [\<lparr>rfrom = 0, rto = 11\<rparr>],
           selection = [\<lparr>rfrom = 11, rto = 11\<rparr>],
           syntaxTree = \<lambda>a b. [\<lparr>name = ''Document'', nfrom = 0, nto = 11\<rparr>,
                                \<lparr>name = ''InlineMath'', nfrom = 0, nto = 3\<rparr>,
                                \<lparr>name = ''InlineMath'', nfrom = 8, nto = 11\<rparr>]\<rparr> 0) =
     [\<lparr>dfrom = 2, dto = 9, widget = \<lparr>formula = js ''and''\<rparr>\<rparr>] \<and>
   fst (buildDecorations
          \<lparr>doc = js ''$a$ and $b$'', visibleRanges = [\<lparr>rfrom = 0, rto = 11\<rparr>],
           selection = [\<lparr>rfrom = 11, rto = 11\<rparr>],
           syntaxTree = \<lambda>a b. [\<lparr>name = ''Document'', nfrom = 0, nto = 11\<rparr>,
                                \<lparr>name = ''InlineMath'', nfrom = 0, nto = 3\<rparr>,
                                \<lparr>name = ''InlineMath'', nfrom = 8, nto = 11\<rparr>]\<rparr> 0) = []"
proof -
  let ?view = "\<lparr>doc = js ''$a$ and $b$'', visibleRanges = [\<lparr>rfrom = 0, rto = 11\<rparr>],
           selection = [\<lparr>rfrom = 11, rto = 11\<rparr>],
           syntaxTree = \<lambda>a b. [\<lparr>name = ''Document'', nfrom = 0, nto = 11\<rparr>,
                                \<lparr>name = ''InlineMath'', nfrom = 0, nto = 3\<rparr>,
                                \<lparr>name = ''InlineMath'', nfrom = 8, nto = 11\<rparr>]\<rparr>"
  have n: "nativeMathRanges ?view = [\<lparr>rfrom = 0, rto = 3\<rparr>, \<lparr>rfrom = 8, rto = 11\<rparr>]"
    by code_simp
  have s: "scan (sliceString (js ''$a$ and $b$'') 0 11) 0 =
      [\<lparr>index = 2, m0 = js ''$ and $'', m1 = js ''and''\<rparr>]"
    by (simp add: sliceString_def matcher_eval)
  have t: "trim (js ''and'') = js ''and''"
    by (simp add: trim_def js_def white_space_def)
  have l: "length (js ''$ and $'') = 7" by (simp add: js_def)
  have "fst (main_js_buildDecorations ?view 0) =
      [\<lparr>dfrom = 2, dto = 9, widget = \<lparr>formula = js ''and''\<rparr>\<rparr>]"
    unfolding main_js_buildDecorations_eq
    by (simp add: range_decorations_def s accepted_def decoration_of_def t l)
  moreover have "fst (buildDecorations ?view 0) = []"
    unfolding buildDecorations_eq n
    by (simp add: range_decorations_def s accepted_def decoration_of_def t l)
  moreover have "\<exists>n\<in>set (nativeMathRanges ?view).
      rfrom n < 2 + length (js ''$ and $'') \<and> rto n > 2"
    unfolding n l by simp
  ultimately show ?thesis using n s by blast
qed

text \<open>
  Claim C4, as amended. For every match of any scan, the captured interior \<open>match[1]\<close> is
  non-empty and holds no dollar and no newline, and the reported formula
  \<open>match[1].trim()\<close> is non-empty exactly when the interior holds a code unit that is not
  whitespace. The pattern accepts an interior of whitespace only, whose formula is empty:
  \<^verbatim>\<open>$   $\<close> matches with the interior of one space.
\<close>

theorem formula_nonempty_iff_interior_not_blank:
  "\<forall>m\<in>set (scan text lastIndex).
     m1 m \<noteq> [] \<and> list_all body_char (m1 m) \<and>
     (trim (m1 m) \<noteq> [] \<longleftrightarrow> (\<exists>c\<in>set (m1 m). \<not> white_space c))"
proof
  fix m
  assume "m \<in> set (scan text lastIndex)"
  then have "spaced_span (m0 m) (m1 m)"
    using scan_member by blast
  then have "m1 m \<noteq> []" and "list_all body_char (m1 m)"
    by (rule spaced_span_shape(5), rule spaced_span_shape(6))
  then show "m1 m \<noteq> [] \<and> list_all body_char (m1 m) \<and>
     (trim (m1 m) \<noteq> [] \<longleftrightarrow> (\<exists>c\<in>set (m1 m). \<not> white_space c))"
    by (simp add: trim_eq_Nil)
qed

theorem formula_nonempty_iff_interior_not_blank_witness:
  "\<lparr>index = 0, m0 = js ''$ E = mc^2 $'', m1 = js ''E = mc^2''\<rparr>
     \<in> set (scan (js ''$ E = mc^2 $'') 0) \<and>
   trim (js ''E = mc^2'') \<noteq> []"
proof -
  let ?m = "\<lparr>index = 0, m0 = js ''$ E = mc^2 $'', m1 = js ''E = mc^2''\<rparr>"
  have m: "?m \<in> set (scan (js ''$ E = mc^2 $'') 0)"
    by (simp add: matcher_eval)
  have c: "\<exists>c\<in>set (m1 ?m). \<not> white_space c"
    by (simp add: js_def white_space_def)
  from bspec [OF formula_nonempty_iff_interior_not_blank m] c
  have "trim (m1 ?m) \<noteq> []" by blast
  with m show ?thesis by simp
qed

theorem formula_empty_for_blank_interior:
  "scan (js ''$   $'') 0 = [\<lparr>index = 0, m0 = js ''$   $'', m1 = js '' ''\<rparr>] \<and>
   map (\<lambda>m. trim (m1 m)) (scan (js ''$   $'') 0) = [[]]"
proof -
  have s: "scan (js ''$   $'') 0 = [\<lparr>index = 0, m0 = js ''$   $'', m1 = js '' ''\<rparr>]"
    by (simp add: matcher_eval)
  have "trim (js '' '') = []"
    by (simp add: trim_def js_def white_space_def)
  with s show ?thesis by simp
qed

text \<open>
  Claim C5. Take a text \<open>pre $a$ mid $b$ post\<close> that holds two spaced formulas standing
  apart: the interiors \<open>a\<close> and \<open>b\<close> each begin and end with a space or tab, are at least
  three code units long and hold no dollar and no newline; the text \<open>mid\<close> between the
  formulas is not empty; and \<open>pre\<close>, \<open>mid\<close> and \<open>post\<close> hold no dollar. Then a scan of the
  text yields exactly two matches, in this order: the first spans the first formula with its
  two delimiters and reports the trimmed \<open>a\<close>, the second spans the second formula with its
  two delimiters and reports the trimmed \<open>b\<close>; and \<open>buildDecorations\<close> over the whole text,
  with no selection range on either formula, emits exactly these two decorations. So
  \<^verbatim>\<open>$ a $ and $ b $\<close> yields exactly two matches, with the spans \<open>[0, 5)\<close> and
  \<open>[10, 15)\<close> and the formulas \<open>a\<close> and \<open>b\<close>. For every text, a match holds exactly two
  dollars, its own delimiters, so it never runs over two formulas, and the matches of a scan
  never overlap: each begins at or after the end of the one before.
\<close>

theorem two_formulas_two_matches:
  "(dollar \<notin> set pre \<and> dollar \<notin> set mid \<and> mid \<noteq> [] \<and> dollar \<notin> set post \<and>
    3 \<le> length a \<and> hspace (hd a) \<and> hspace (last a) \<and> list_all body_char a \<and>
    3 \<le> length b \<and> hspace (hd b) \<and> hspace (last b) \<and> list_all body_char b \<longrightarrow>
    map (\<lambda>m. (index m, index m + length (m0 m), m0 m, trim (m1 m)))
      (scan (pre @ dollar # a @ dollar # mid @ dollar # b @ dollar # post) 0) =
      [(length pre, length pre + length a + 2, dollar # a @ [dollar], trim a),
       (length pre + length a + 2 + length mid,
        length pre + length a + 2 + length mid + length b + 2, dollar # b @ [dollar], trim b)] \<and>
    ((\<forall>c\<in>set cursors.
        \<not> (rfrom c \<le> length pre + length a + 2 \<and> rto c \<ge> length pre) \<and>
        \<not> (rfrom c \<le> length pre + length a + 2 + length mid + length b + 2 \<and>
           rto c \<ge> length pre + length a + 2 + length mid)) \<longrightarrow>
     fst (main_js_buildDecorations
            \<lparr>doc = pre @ dollar # a @ dollar # mid @ dollar # b @ dollar # post,
             visibleRanges =
               [\<lparr>rfrom = 0,
                 rto = length (pre @ dollar # a @ dollar # mid @ dollar # b @ dollar # post)\<rparr>],
             selection = cursors, syntaxTree = tree\<rparr> lastIndex) =
       [\<lparr>dfrom = length pre, dto = length pre + length a + 2, widget = \<lparr>formula = trim a\<rparr>\<rparr>,
        \<lparr>dfrom = length pre + length a + 2 + length mid,
         dto = length pre + length a + 2 + length mid + length b + 2,
         widget = \<lparr>formula = trim b\<rparr>\<rparr>])) \<and>
   scan (js ''$ a $ and $ b $'') 0 =
     [\<lparr>index = 0, m0 = js ''$ a $'', m1 = js ''a''\<rparr>,
      \<lparr>index = 10, m0 = js ''$ b $'', m1 = js ''b''\<rparr>] \<and>
   map (\<lambda>m. (index m, index m + length (m0 m), trim (m1 m))) (scan (js ''$ a $ and $ b $'') 0) =
     [(0, 5, js ''a''), (10, 15, js ''b'')] \<and>
   fst (main_js_buildDecorations
          \<lparr>doc = js ''$ a $ and $ b $'', visibleRanges = [\<lparr>rfrom = 0, rto = 15\<rparr>],
           selection = [\<lparr>rfrom = 7, rto = 7\<rparr>], syntaxTree = \<lambda>a b. []\<rparr> 0) =
     [\<lparr>dfrom = 0, dto = 5, widget = \<lparr>formula = js ''a''\<rparr>\<rparr>,
      \<lparr>dfrom = 10, dto = 15, widget = \<lparr>formula = js ''b''\<rparr>\<rparr>] \<and>
   (\<forall>m\<in>set (scan text lastIndex). length (filter (\<lambda>c. c = dollar) (m0 m)) = 2) \<and>
   sorted_wrt (\<lambda>a b. index a + length (m0 a) \<le> index b) (scan text lastIndex)"
proof -
  let ?s = "pre @ dollar # a @ dollar # mid @ dollar # b @ dollar # post"
  let ?p2 = "length pre + length a + 2 + length mid"
  have general: "map (\<lambda>m. (index m, index m + length (m0 m), m0 m, trim (m1 m))) (scan ?s 0) =
      [(length pre, length pre + length a + 2, dollar # a @ [dollar], trim a),
       (?p2, ?p2 + length b + 2, dollar # b @ [dollar], trim b)] \<and>
    ((\<forall>c\<in>set cursors.
        \<not> (rfrom c \<le> length pre + length a + 2 \<and> rto c \<ge> length pre) \<and>
        \<not> (rfrom c \<le> ?p2 + length b + 2 \<and> rto c \<ge> ?p2)) \<longrightarrow>
     fst (main_js_buildDecorations
            \<lparr>doc = ?s, visibleRanges = [\<lparr>rfrom = 0, rto = length ?s\<rparr>],
             selection = cursors, syntaxTree = tree\<rparr> lastIndex) =
       [\<lparr>dfrom = length pre, dto = length pre + length a + 2, widget = \<lparr>formula = trim a\<rparr>\<rparr>,
        \<lparr>dfrom = ?p2, dto = ?p2 + length b + 2, widget = \<lparr>formula = trim b\<rparr>\<rparr>])"
    if h: "dollar \<notin> set pre" "dollar \<notin> set mid" "mid \<noteq> []" "dollar \<notin> set post"
      "3 \<le> length a" "hspace (hd a)" "hspace (last a)" "list_all body_char a"
      "3 \<le> length b" "hspace (hd b)" "hspace (last b)" "list_all body_char b"
  proof -
    from scan_two_formulas [OF h] obtain c1 c2 where
      sc: "scan ?s 0 =
             [\<lparr>index = length pre, m0 = dollar # a @ [dollar], m1 = c1\<rparr>,
              \<lparr>index = ?p2, m0 = dollar # b @ [dollar], m1 = c2\<rparr>]"
      and t: "trim c1 = trim a" "trim c2 = trim b"
      by blast
    have sl: "sliceString ?s 0 (length ?s) = ?s"
      unfolding sliceString_def by simp
    have 1: "map (\<lambda>m. (index m, index m + length (m0 m), m0 m, trim (m1 m))) (scan ?s 0) =
      [(length pre, length pre + length a + 2, dollar # a @ [dollar], trim a),
       (?p2, ?p2 + length b + 2, dollar # b @ [dollar], trim b)]"
      unfolding sc by (simp add: t)
    have 2: "fst (main_js_buildDecorations
            \<lparr>doc = ?s, visibleRanges = [\<lparr>rfrom = 0, rto = length ?s\<rparr>],
             selection = cursors, syntaxTree = tree\<rparr> lastIndex) =
       [\<lparr>dfrom = length pre, dto = length pre + length a + 2, widget = \<lparr>formula = trim a\<rparr>\<rparr>,
        \<lparr>dfrom = ?p2, dto = ?p2 + length b + 2, widget = \<lparr>formula = trim b\<rparr>\<rparr>]"
      if c: "\<forall>c\<in>set cursors.
        \<not> (rfrom c \<le> length pre + length a + 2 \<and> rto c \<ge> length pre) \<and>
        \<not> (rfrom c \<le> ?p2 + length b + 2 \<and> rto c \<ge> ?p2)"
    proof -
      have f: "filter (accepted [] cursors 0) (scan ?s 0) = scan ?s 0"
        unfolding sc using c by (auto simp: accepted_def list_ex_iff)
      have "range_decorations [] cursors ?s \<lparr>rfrom = 0, rto = length ?s\<rparr> =
          map (decoration_of 0) (scan ?s 0)"
        unfolding range_decorations_def using sl f by simp
      then show ?thesis
        unfolding main_js_buildDecorations_eq sc
        by (simp add: decoration_of_def t)
    qed
    from 1 2 show ?thesis by blast
  qed
  have s: "scan (js ''$ a $ and $ b $'') 0 =
     [\<lparr>index = 0, m0 = js ''$ a $'', m1 = js ''a''\<rparr>,
      \<lparr>index = 10, m0 = js ''$ b $'', m1 = js ''b''\<rparr>]"
    by (simp add: matcher_eval)
  have t: "trim (js ''a'') = js ''a''" "trim (js ''b'') = js ''b''"
    by (simp_all add: trim_def js_def white_space_def)
  have l: "length (js ''$ a $'') = 5" "length (js ''$ b $'') = 5"
    by (simp_all add: js_def)
  have sl: "sliceString (js ''$ a $ and $ b $'') 0 15 = js ''$ a $ and $ b $''"
    by (simp add: sliceString_def js_def)
  have "map (\<lambda>m. (index m, index m + length (m0 m), trim (m1 m))) (scan (js ''$ a $ and $ b $'') 0) =
     [(0, 5, js ''a''), (10, 15, js ''b'')]"
    by (simp add: s t l)
  moreover have "fst (main_js_buildDecorations
          \<lparr>doc = js ''$ a $ and $ b $'', visibleRanges = [\<lparr>rfrom = 0, rto = 15\<rparr>],
           selection = [\<lparr>rfrom = 7, rto = 7\<rparr>], syntaxTree = \<lambda>a b. []\<rparr> 0) =
     [\<lparr>dfrom = 0, dto = 5, widget = \<lparr>formula = js ''a''\<rparr>\<rparr>,
      \<lparr>dfrom = 10, dto = 15, widget = \<lparr>formula = js ''b''\<rparr>\<rparr>]"
    by (simp add: main_js_buildDecorations_eq range_decorations_def sl s accepted_def
        decoration_of_def t l)
  moreover have "length (filter (\<lambda>c. c = dollar) (m0 m)) = 2"
    if "m \<in> set (scan text lastIndex)" for m
    using scan_member [OF that] spaced_span_shape(7) by blast
  moreover have "sorted_wrt (\<lambda>a b. index a + length (m0 a) \<le> index b) (scan text lastIndex)"
    by (rule scan_sorted)
  ultimately show ?thesis using s general by blast
qed

theorem two_formulas_two_matches_witness:
  "map (\<lambda>m. (index m, index m + length (m0 m), m0 m, trim (m1 m)))
     (scan (js ''x $ a b $, $ c $.'') 0) =
     [(2, 9, js ''$ a b $'', js ''a b''), (11, 16, js ''$ c $'', js ''c'')] \<and>
   fst (main_js_buildDecorations
          \<lparr>doc = js ''x $ a b $, $ c $.'', visibleRanges = [\<lparr>rfrom = 0, rto = 17\<rparr>],
           selection = [\<lparr>rfrom = 0, rto = 1\<rparr>], syntaxTree = \<lambda>a b. []\<rparr> 0) =
     [\<lparr>dfrom = 2, dto = 9, widget = \<lparr>formula = js ''a b''\<rparr>\<rparr>,
      \<lparr>dfrom = 11, dto = 16, widget = \<lparr>formula = js ''c''\<rparr>\<rparr>] \<and>
   \<lparr>index = 1, m0 = js ''$ x $'', m1 = js ''x''\<rparr> \<in> set (scan (js ''=$ x $ $ y $'') 0) \<and>
   length (filter (\<lambda>c. c = dollar) (js ''$ x $'')) = 2"
proof -
  let ?pre = "js ''x ''" and ?a = "js '' a b ''" and ?mid = "js '', ''"
    and ?b = "js '' c ''" and ?post = "js ''.''"
  let ?cursors = "[\<lparr>rfrom = 0, rto = 1\<rparr>]"
  have h: "dollar \<notin> set ?pre \<and> dollar \<notin> set ?mid \<and> ?mid \<noteq> [] \<and> dollar \<notin> set ?post \<and>
    3 \<le> length ?a \<and> hspace (hd ?a) \<and> hspace (last ?a) \<and> list_all body_char ?a \<and>
    3 \<le> length ?b \<and> hspace (hd ?b) \<and> hspace (last ?b) \<and> list_all body_char ?b"
    by (simp add: js_def dollar_def hspace_def body_char_def)
  have c: "\<forall>c\<in>set ?cursors.
        \<not> (rfrom c \<le> length ?pre + length ?a + 2 \<and> rto c \<ge> length ?pre) \<and>
        \<not> (rfrom c \<le> length ?pre + length ?a + 2 + length ?mid + length ?b + 2 \<and>
           rto c \<ge> length ?pre + length ?a + 2 + length ?mid)"
    by (simp add: js_def)
  have e: "?pre @ dollar # ?a @ dollar # ?mid @ dollar # ?b @ dollar # ?post =
      js ''x $ a b $, $ c $.''"
      "dollar # ?a @ [dollar] = js ''$ a b $''" "dollar # ?b @ [dollar] = js ''$ c $''"
    by (simp_all add: js_def dollar_def)
  have t: "trim ?a = js ''a b''" "trim ?b = js ''c''"
    by (simp_all add: trim_def js_def white_space_def)
  have l: "length ?pre = 2" "length ?a = 5" "length ?mid = 2" "length ?b = 3"
      "length (js ''x $ a b $, $ c $.'') = 17"
    by (simp_all add: js_def)
  let ?m = "\<lparr>index = 1, m0 = js ''$ x $'', m1 = js ''x''\<rparr>"
  have m: "?m \<in> set (scan (js ''=$ x $ $ y $'') 0)"
    by (simp add: matcher_eval)
  note inst = two_formulas_two_matches [of ?pre ?mid ?post ?a ?b ?cursors "\<lambda>a b. []" 0
      "js ''=$ x $ $ y $''"]
  from inst h c have 1: "map (\<lambda>m. (index m, index m + length (m0 m), m0 m, trim (m1 m)))
     (scan (js ''x $ a b $, $ c $.'') 0) =
     [(2, 9, js ''$ a b $'', js ''a b''), (11, 16, js ''$ c $'', js ''c'')]"
    unfolding e t l by simp
  from inst h c have 2: "fst (main_js_buildDecorations
          \<lparr>doc = js ''x $ a b $, $ c $.'', visibleRanges = [\<lparr>rfrom = 0, rto = 17\<rparr>],
           selection = [\<lparr>rfrom = 0, rto = 1\<rparr>], syntaxTree = \<lambda>a b. []\<rparr> 0) =
     [\<lparr>dfrom = 2, dto = 9, widget = \<lparr>formula = js ''a b''\<rparr>\<rparr>,
      \<lparr>dfrom = 11, dto = 16, widget = \<lparr>formula = js ''c''\<rparr>\<rparr>]"
    unfolding e t l by simp
  from inst
  have "\<forall>m\<in>set (scan (js ''=$ x $ $ y $'') 0). length (filter (\<lambda>c. c = dollar) (m0 m)) = 2"
    by blast
  from bspec [OF this m] m 1 2 show ?thesis by simp
qed

text \<open>
  Claim C6. For any document text and any selection ranges, and for visible ranges as the
  editor supplies them (in document order and not overlapping: each range ends at or before
  the start of every later one), the decorations of one rebuild, in the order of the
  \<open>builder.add\<close> calls, have strictly ascending start offsets and no two of them overlap,
  in the TypeScript source and in the built \<open>main.js\<close>.
\<close>

theorem decorations_ascending:
  assumes "sorted_wrt (\<lambda>a b. rto a \<le> rfrom b) (visibleRanges view)"
  shows "sorted_wrt (\<lambda>a b. dfrom a < dfrom b \<and> dto a \<le> dfrom b)
           (fst (buildDecorations view lastIndex)) \<and>
         sorted_wrt (\<lambda>a b. dfrom a < dfrom b \<and> dto a \<le> dfrom b)
           (fst (main_js_buildDecorations view lastIndex))"
proof
  show "sorted_wrt (\<lambda>a b. dfrom a < dfrom b \<and> dto a \<le> dfrom b)
          (fst (buildDecorations view lastIndex))"
    unfolding buildDecorations_eq fst_conv
    using assms by (rule concat_range_decorations_sorted)
  show "sorted_wrt (\<lambda>a b. dfrom a < dfrom b \<and> dto a \<le> dfrom b)
          (fst (main_js_buildDecorations view lastIndex))"
    unfolding main_js_buildDecorations_eq fst_conv
    using assms by (rule concat_range_decorations_sorted)
qed

theorem decorations_ascending_witness:
  "sorted_wrt (\<lambda>a b. rto a \<le> rfrom b) [\<lparr>rfrom = 0, rto = 5\<rparr>, \<lparr>rfrom = 6, rto = 14\<rparr>] \<and>
   fst (buildDecorations
        \<lparr>doc = js ''$ a $ $ b $ xx'',
         visibleRanges = [\<lparr>rfrom = 0, rto = 5\<rparr>, \<lparr>rfrom = 6, rto = 14\<rparr>],
         selection = [\<lparr>rfrom = 13, rto = 13\<rparr>], syntaxTree = \<lambda>a b. []\<rparr> 0) =
     [\<lparr>dfrom = 0, dto = 5, widget = \<lparr>formula = js ''a''\<rparr>\<rparr>,
      \<lparr>dfrom = 6, dto = 11, widget = \<lparr>formula = js ''b''\<rparr>\<rparr>] \<and>
   sorted_wrt (\<lambda>a b. dfrom a < dfrom b \<and> dto a \<le> dfrom b)
     (fst (buildDecorations
        \<lparr>doc = js ''$ a $ $ b $ xx'',
         visibleRanges = [\<lparr>rfrom = 0, rto = 5\<rparr>, \<lparr>rfrom = 6, rto = 14\<rparr>],
         selection = [\<lparr>rfrom = 13, rto = 13\<rparr>], syntaxTree = \<lambda>a b. []\<rparr> 0)) \<and>
   sorted_wrt (\<lambda>a b. dfrom a < dfrom b \<and> dto a \<le> dfrom b)
     (fst (main_js_buildDecorations
        \<lparr>doc = js ''$ a $ $ b $ xx'',
         visibleRanges = [\<lparr>rfrom = 0, rto = 5\<rparr>, \<lparr>rfrom = 6, rto = 14\<rparr>],
         selection = [\<lparr>rfrom = 13, rto = 13\<rparr>], syntaxTree = \<lambda>a b. []\<rparr> 0))"
proof -
  let ?view = "\<lparr>doc = js ''$ a $ $ b $ xx'',
         visibleRanges = [\<lparr>rfrom = 0, rto = 5\<rparr>, \<lparr>rfrom = 6, rto = 14\<rparr>],
         selection = [\<lparr>rfrom = 13, rto = 13\<rparr>], syntaxTree = \<lambda>a b. []\<rparr>"
  have h: "sorted_wrt (\<lambda>a b. rto a \<le> rfrom b) (visibleRanges ?view)" by simp
  have s: "scan (sliceString (js ''$ a $ $ b $ xx'') 0 5) 0 =
        [\<lparr>index = 0, m0 = js ''$ a $'', m1 = js ''a''\<rparr>]"
      "scan (sliceString (js ''$ a $ $ b $ xx'') 6 14) 0 =
        [\<lparr>index = 0, m0 = js ''$ b $'', m1 = js ''b''\<rparr>]"
    by (simp_all add: sliceString_def matcher_eval)
  have t: "trim (js ''a'') = js ''a''" "trim (js ''b'') = js ''b''"
    by (simp_all add: trim_def js_def white_space_def)
  have l: "length (js ''$ a $'') = 5" "length (js ''$ b $'') = 5"
    by (simp_all add: js_def)
  have n: "nativeMathRanges ?view = []"
    by (simp add: nativeMathRanges_def)
  have v: "fst (buildDecorations ?view 0) =
     [\<lparr>dfrom = 0, dto = 5, widget = \<lparr>formula = js ''a''\<rparr>\<rparr>,
      \<lparr>dfrom = 6, dto = 11, widget = \<lparr>formula = js ''b''\<rparr>\<rparr>]"
    unfolding buildDecorations_eq n
    by (simp add: range_decorations_def s accepted_def decoration_of_def t l)
  from decorations_ascending [OF h, of 0] h v show ?thesis by simp
qed

text \<open>
  Claim C7. When \<open>renderMath\<close> throws for the formula of a widget, \<open>toDOM\<close> returns the
  span whose text is \<^verbatim>\<open>$ formula $\<close>. In the reading view, \<open>replaceTextNodeWithMath\<close> always
  returns, having called \<open>renderMath\<close> once for every match of the text in order, whatever
  the earlier calls did. Its fragment is, for the matches in order, the text before the match
  (when there is some), then the raw matched text \<open>match[0]\<close> when the call for the match
  threw and the rendered element when it returned, and at the end the text after the last
  match (when there is some). The fragment stands in the place of the text node exactly when
  the call for some match returned and the node has a parent; otherwise the text node stays
  as it was. \<open>processElement\<close> puts in the place of every collected text node what the call
  for that node placed, and makes the render calls of every match of every collected text
  node: no failure ends the pass or reaches the caller.
\<close>

theorem render_failure_falls_back:
  "(\<forall>e. renderMath (formula w) False = Inl e \<longrightarrow>
      toDOM renderMath w =
        Element ''SPAN'' [''tolerant-math-widget''] [TextNode (js ''$ '' @ formula w @ js '' $'')]) \<and>
   (\<forall>m\<in>set (scan text 0). \<forall>e. renderMath (trim (m1 m)) False = Inl e \<longrightarrow>
      unit_of renderMath m = TextNode (m0 m) \<and>
      TextNode (m0 m) \<in> set (fragment (replaceTextNodeWithMath renderMath text hasParent re))) \<and>
   (\<forall>m\<in>set (scan text 0). \<forall>tag classList children.
      renderMath (trim (m1 m)) False = Inr (tag, classList, children) \<longrightarrow>
      unit_of renderMath m =
        Element tag (classList_add ''tolerant-math-inline'' classList) children \<and>
      Element tag (classList_add ''tolerant-math-inline'' classList) children
        \<in> set (fragment (replaceTextNodeWithMath renderMath text hasParent re))) \<and>
   fragment (replaceTextNodeWithMath renderMath text hasParent re) =
     (if scan text 0 = [] then []
      else pieces renderMath text 0 (scan text 0) @ tail_text text (scan text 0)) \<and>
   placed (replaceTextNodeWithMath renderMath text hasParent re) =
     (if (\<exists>m\<in>set (scan text 0). \<exists>el. renderMath (trim (m1 m)) False = Inr el) \<and> hasParent
      then fragment (replaceTextNodeWithMath renderMath text hasParent re)
      else [TextNode text]) \<and>
   (placed (replaceTextNodeWithMath renderMath text hasParent re) =
      fragment (replaceTextNodeWithMath renderMath text hasParent re) \<or>
    placed (replaceTextNodeWithMath renderMath text hasParent re) = [TextNode text]) \<and>
   calls (replaceTextNodeWithMath renderMath text hasParent re) =
     map (\<lambda>m. RenderMath (trim (m1 m)) False) (scan text 0) \<and>
   fst (processElement renderMath (Element tag0 classList0 children0) re) =
     Element tag0 classList0
       (fst (splice tag0 classList0 children0
               (map (\<lambda>t. placed (replaceTextNodeWithMath renderMath t True 0))
                  (nodesToProcess tag0 classList0 children0)))) \<and>
   filter (\<lambda>c. c \<noteq> FinishRenderMath)
     (fst (snd (processElement renderMath (Element tag0 classList0 children0) re))) =
     concat (map (\<lambda>t. map (\<lambda>m. RenderMath (trim (m1 m)) False) (scan t 0))
               (nodesToProcess tag0 classList0 children0))"
proof (intro conjI)
  show "\<forall>e. renderMath (formula w) False = Inl e \<longrightarrow>
      toDOM renderMath w =
        Element ''SPAN'' [''tolerant-math-widget''] [TextNode (js ''$ '' @ formula w @ js '' $'')]"
    by (simp add: toDOM_def)
  let ?out = "replaceTextNodeWithMath renderMath text hasParent re"
  have unit: "unit_of renderMath m \<in> set (fragment ?out)" if "m \<in> set (scan text 0)" for m
  proof -
    from that have ne: "scan text 0 \<noteq> []" by auto
    show ?thesis
      unfolding fragment_eq [OF ne] using unit_in_pieces [OF that, of renderMath "text" 0] by simp
  qed
  show "\<forall>m\<in>set (scan text 0). \<forall>e. renderMath (trim (m1 m)) False = Inl e \<longrightarrow>
      unit_of renderMath m = TextNode (m0 m) \<and> TextNode (m0 m) \<in> set (fragment ?out)"
  proof (intro ballI allI impI)
    fix m e
    assume m: "m \<in> set (scan text 0)" and f: "renderMath (trim (m1 m)) False = Inl e"
    from unit [OF m] f
    show "unit_of renderMath m = TextNode (m0 m) \<and> TextNode (m0 m) \<in> set (fragment ?out)"
      by (simp add: unit_of_def)
  qed
  show "\<forall>m\<in>set (scan text 0). \<forall>tag classList children.
      renderMath (trim (m1 m)) False = Inr (tag, classList, children) \<longrightarrow>
      unit_of renderMath m =
        Element tag (classList_add ''tolerant-math-inline'' classList) children \<and>
      Element tag (classList_add ''tolerant-math-inline'' classList) children \<in> set (fragment ?out)"
  proof (intro ballI allI impI)
    fix m tag classList children
    assume m: "m \<in> set (scan text 0)"
      and f: "renderMath (trim (m1 m)) False = Inr (tag, classList, children)"
    from unit [OF m] f
    show "unit_of renderMath m =
        Element tag (classList_add ''tolerant-math-inline'' classList) children \<and>
      Element tag (classList_add ''tolerant-math-inline'' classList) children \<in> set (fragment ?out)"
      by (simp add: unit_of_def)
  qed
  show "fragment ?out =
     (if scan text 0 = [] then []
      else pieces renderMath text 0 (scan text 0) @ tail_text text (scan text 0))"
    by (simp add: replaceTextNodeWithMath_eq)
  have ex: "list_ex (rendered renderMath) (scan text 0) \<longleftrightarrow>
      (\<exists>m\<in>set (scan text 0). \<exists>el. renderMath (trim (m1 m)) False = Inr el)"
    by (simp add: list_ex_iff rendered_iff)
  show "placed ?out =
     (if (\<exists>m\<in>set (scan text 0). \<exists>el. renderMath (trim (m1 m)) False = Inr el) \<and> hasParent
      then fragment ?out else [TextNode text])"
  proof (cases "scan text 0 = []")
    case True
    then show ?thesis by (simp add: replaceTextNodeWithMath_eq)
  next
    case False
    show ?thesis
      unfolding placed_eq fragment_eq [OF False] ex by simp
  qed
  show "placed ?out = fragment ?out \<or> placed ?out = [TextNode text]"
    by (simp add: replaceTextNodeWithMath_eq)
  show "calls ?out = map (\<lambda>m. RenderMath (trim (m1 m)) False) (scan text 0)"
    by (rule calls_eq)
  show "fst (processElement renderMath (Element tag0 classList0 children0) re) =
     Element tag0 classList0
       (fst (splice tag0 classList0 children0
               (map (\<lambda>t. placed (replaceTextNodeWithMath renderMath t True 0))
                  (nodesToProcess tag0 classList0 children0))))"
    unfolding processElement_eq by simp
  show "filter (\<lambda>c. c \<noteq> FinishRenderMath)
     (fst (snd (processElement renderMath (Element tag0 classList0 children0) re))) =
     concat (map (\<lambda>t. map (\<lambda>m. RenderMath (trim (m1 m)) False) (scan t 0))
               (nodesToProcess tag0 classList0 children0))"
    unfolding processElement_eq by (simp add: only_renders_among_renders)
qed

theorem render_failure_falls_back_witness:
  "toDOM example_renderMath \<lparr>formula = js ''x^''\<rparr> =
     Element ''SPAN'' [''tolerant-math-widget''] [TextNode (js ''$ x^ $'')] \<and>
   TextNode (js ''$ x^ $'')
     \<in> set (fragment (replaceTextNodeWithMath example_renderMath (js ''$ x^ $ and $ a $'') True 0)) \<and>
   Element ''SPAN'' [''math'', ''tolerant-math-inline''] []
     \<in> set (fragment (replaceTextNodeWithMath example_renderMath (js ''$ x^ $ and $ a $'') True 0)) \<and>
   placed (replaceTextNodeWithMath example_renderMath (js ''$ x^ $ and $ a $'') True 0) =
     [TextNode (js ''$ x^ $''), TextNode (js '' and ''),
      Element ''SPAN'' [''math'', ''tolerant-math-inline''] []] \<and>
   fst (processElement example_renderMath
          (Element ''P'' [] [TextNode (js ''$ x^ $ and $ a $'')]) 0) =
     Element ''P'' []
       [TextNode (js ''$ x^ $''), TextNode (js '' and ''),
        Element ''SPAN'' [''math'', ''tolerant-math-inline''] []]"
proof -
  let ?text = "js ''$ x^ $ and $ a $''"
  let ?m1 = "\<lparr>index = 0, m0 = js ''$ x^ $'', m1 = js ''x^''\<rparr>"
  let ?m2 = "\<lparr>index = 11, m0 = js ''$ a $'', m1 = js ''a''\<rparr>"
  let ?nodes = "[TextNode (js ''$ x^ $''), TextNode (js '' and ''),
      Element ''SPAN'' [''math'', ''tolerant-math-inline''] []]"
  have s: "scan ?text 0 = [?m1, ?m2]"
    by (simp add: matcher_eval)
  have t: "trim (js ''a'') = js ''a''" "trim (js ''x^'') = js ''x^''"
    by (simp_all add: trim_def js_def white_space_def)
  have r: "example_renderMath (js ''a'') False = Inr (''SPAN'', [''math''], [])"
      "example_renderMath (js ''x^'') False = Inl ()"
    by (simp_all add: example_renderMath_def js_def)
  have j: "js ''$ '' @ js ''x^'' @ js '' $'' = js ''$ x^ $''"
    by (simp add: js_def)
  have l: "length (js ''$ x^ $'') = 6" "length (js ''$ a $'') = 5" "length ?text = 16"
    by (simp_all add: js_def)
  have sl: "slice ?text 6 11 = js '' and ''"
    by (simp add: slice_def js_def)
  have p: "pieces example_renderMath ?text 0 [?m1, ?m2] @ tail_text ?text [?m1, ?m2] = ?nodes"
    by (simp add: unit_of_def t r l sl tail_text_def classList_add_def)
  have a: "acceptNode ''P'' [] ?text"
    by (simp add: acceptNode_def js_def dollar_def)
  note inst = render_failure_falls_back [of example_renderMath "\<lparr>formula = js ''x^''\<rparr>" ?text True 0
      "''P''" "[]" "[TextNode ?text]"]
  from inst r have 1: "toDOM example_renderMath \<lparr>formula = js ''x^''\<rparr> =
     Element ''SPAN'' [''tolerant-math-widget''] [TextNode (js ''$ x^ $'')]"
    by (simp add: j)
  from inst have "\<forall>m\<in>set (scan ?text 0). \<forall>e. example_renderMath (trim (m1 m)) False = Inl e \<longrightarrow>
      unit_of example_renderMath m = TextNode (m0 m) \<and>
      TextNode (m0 m) \<in> set (fragment (replaceTextNodeWithMath example_renderMath ?text True 0))"
    by blast
  then have 2: "TextNode (js ''$ x^ $'')
      \<in> set (fragment (replaceTextNodeWithMath example_renderMath ?text True 0))"
    by (simp add: s t r)
  from inst have "\<forall>m\<in>set (scan ?text 0). \<forall>tag classList children.
      example_renderMath (trim (m1 m)) False = Inr (tag, classList, children) \<longrightarrow>
      unit_of example_renderMath m =
        Element tag (classList_add ''tolerant-math-inline'' classList) children \<and>
      Element tag (classList_add ''tolerant-math-inline'' classList) children
        \<in> set (fragment (replaceTextNodeWithMath example_renderMath ?text True 0))"
    by blast
  then have 3: "Element ''SPAN'' [''math'', ''tolerant-math-inline''] []
      \<in> set (fragment (replaceTextNodeWithMath example_renderMath ?text True 0))"
    by (simp add: s t r classList_add_def)
  from inst have f: "fragment (replaceTextNodeWithMath example_renderMath ?text True 0) =
     (if scan ?text 0 = [] then []
      else pieces example_renderMath ?text 0 (scan ?text 0) @ tail_text ?text (scan ?text 0))"
    by blast
  from inst have "placed (replaceTextNodeWithMath example_renderMath ?text True 0) =
     (if (\<exists>m\<in>set (scan ?text 0). \<exists>el. example_renderMath (trim (m1 m)) False = Inr el) \<and> True
      then fragment (replaceTextNodeWithMath example_renderMath ?text True 0)
      else [TextNode ?text])"
    by blast
  then have 4: "placed (replaceTextNodeWithMath example_renderMath ?text True 0) = ?nodes"
    unfolding f s using p by (simp add: t r)
  from inst have "fst (processElement example_renderMath (Element ''P'' [] [TextNode ?text]) 0) =
     Element ''P'' []
       (fst (splice ''P'' [] [TextNode ?text]
               (map (\<lambda>t. placed (replaceTextNodeWithMath example_renderMath t True 0))
                  (nodesToProcess ''P'' [] [TextNode ?text]))))"
    by blast
  then have 5: "fst (processElement example_renderMath (Element ''P'' [] [TextNode ?text]) 0) =
     Element ''P'' [] ?nodes"
    using a 4 by simp
  from 1 2 3 4 5 show ?thesis by blast
qed

text \<open>
  Claim C8. The host calls of one \<open>processElement\<close> pass are the render calls of the matches
  of the collected text nodes, followed by one \<open>finishRenderMath\<close> when some match of some
  collected text node was rendered without a throw, and by nothing otherwise: the flush is
  called exactly once in the first case and not at all in the second.
\<close>

theorem flush_once_iff_some_render_succeeded:
  "fst (snd (processElement renderMath (Element tag classList children) re)) =
     concat (map (\<lambda>t. map (\<lambda>m. RenderMath (trim (m1 m)) False) (scan t 0))
               (nodesToProcess tag classList children)) @
     (if \<exists>t\<in>set (nodesToProcess tag classList children).
           \<exists>m\<in>set (scan t 0). \<exists>el. renderMath (trim (m1 m)) False = Inr el
      then [FinishRenderMath] else []) \<and>
   length (filter (\<lambda>c. c = FinishRenderMath)
             (fst (snd (processElement renderMath (Element tag classList children) re)))) =
     (if \<exists>t\<in>set (nodesToProcess tag classList children).
           \<exists>m\<in>set (scan t 0). \<exists>el. renderMath (trim (m1 m)) False = Inr el
      then 1 else 0)"
proof -
  let ?ts = "nodesToProcess tag classList children"
  have ex: "list_ex (\<lambda>t. list_ex (rendered renderMath) (scan t 0)) ?ts \<longleftrightarrow>
      (\<exists>t\<in>set ?ts. \<exists>m\<in>set (scan t 0). \<exists>el. renderMath (trim (m1 m)) False = Inr el)"
    by (simp add: list_ex_iff rendered_iff)
  have c: "fst (snd (processElement renderMath (Element tag classList children) re)) =
     concat (map (\<lambda>t. map (\<lambda>m. RenderMath (trim (m1 m)) False) (scan t 0)) ?ts) @
     (if \<exists>t\<in>set ?ts. \<exists>m\<in>set (scan t 0). \<exists>el. renderMath (trim (m1 m)) False = Inr el
      then [FinishRenderMath] else [])"
    unfolding processElement_eq ex by simp
  show ?thesis
    unfolding c by (simp add: no_flush_among_renders)
qed

theorem flush_once_iff_some_render_succeeded_witness:
  "fst (snd (processElement example_renderMath
       (Element ''P'' [] [TextNode (js ''$ a $ and $ x^ $''),
                          Element ''CODE'' [] [TextNode (js ''$ b $'')]]) 0)) =
     [RenderMath (js ''a'') False, RenderMath (js ''x^'') False, FinishRenderMath] \<and>
   fst (snd (processElement example_renderMath
       (Element ''P'' [] [TextNode (js ''$ x^ $'')]) 0)) =
     [RenderMath (js ''x^'') False]"
proof -
  have n1: "nodesToProcess ''P'' [] [TextNode (js ''$ a $ and $ x^ $''),
      Element ''CODE'' [] [TextNode (js ''$ b $'')]] = [js ''$ a $ and $ x^ $'']"
    by (simp add: acceptNode_def js_def dollar_def)
  have n2: "nodesToProcess ''P'' [] [TextNode (js ''$ x^ $'')] = [js ''$ x^ $'']"
    by (simp add: acceptNode_def js_def dollar_def)
  have s1: "scan (js ''$ a $ and $ x^ $'') 0 =
      [\<lparr>index = 0, m0 = js ''$ a $'', m1 = js ''a''\<rparr>,
       \<lparr>index = 10, m0 = js ''$ x^ $'', m1 = js ''x^''\<rparr>]"
    by (simp add: matcher_eval)
  have s2: "scan (js ''$ x^ $'') 0 = [\<lparr>index = 0, m0 = js ''$ x^ $'', m1 = js ''x^''\<rparr>]"
    by (simp add: matcher_eval)
  have t: "trim (js ''a'') = js ''a''" "trim (js ''x^'') = js ''x^''"
    by (simp_all add: trim_def js_def white_space_def)
  have r: "example_renderMath (js ''a'') False = Inr (''SPAN'', [''math''], [])"
      "example_renderMath (js ''x^'') False = Inl ()"
    by (simp_all add: example_renderMath_def js_def)
  from flush_once_iff_some_render_succeeded [of example_renderMath "''P''" "[]"
      "[TextNode (js ''$ a $ and $ x^ $''), Element ''CODE'' [] [TextNode (js ''$ b $'')]]" 0]
    flush_once_iff_some_render_succeeded [of example_renderMath "''P''" "[]"
      "[TextNode (js ''$ x^ $'')]" 0]
  show ?thesis
    unfolding n1 n2 by (simp add: s1 s2 t r)
qed

text \<open>
  Claim C9. Whatever \<open>lastIndex\<close> an earlier scan or existence test has left in the
  expression, \<open>replaceTextNodeWithMath\<close>, \<open>processElement\<close> and \<open>buildDecorations\<close> (source and
  built file) compute what they compute from \<open>lastIndex = 0\<close>, and what they compute is built
  from the matches of a scan from the start of each text. The resets are needed: after the
  existence test on \<^verbatim>\<open>$ a $\<close> the \<open>lastIndex\<close> is 5, and a scan entered there finds nothing.
\<close>

theorem scans_ignore_left_over_lastIndex:
  "replaceTextNodeWithMath renderMath text hasParent lastIndex =
     replaceTextNodeWithMath renderMath text hasParent 0 \<and>
   calls (replaceTextNodeWithMath renderMath text hasParent lastIndex) =
     map (\<lambda>m. RenderMath (trim (m1 m)) False) (scan text 0) \<and>
   fst (processElement renderMath (Element tag classList children) lastIndex) =
     fst (processElement renderMath (Element tag classList children) 0) \<and>
   fst (snd (processElement renderMath (Element tag classList children) lastIndex)) =
     fst (snd (processElement renderMath (Element tag classList children) 0)) \<and>
   fst (buildDecorations view lastIndex) =
     concat (map (\<lambda>r. map (decoration_of (rfrom r))
                         (filter (accepted (nativeMathRanges view) (selection view) (rfrom r))
                            (scan (sliceString (doc view) (rfrom r) (rto r)) 0)))
               (visibleRanges view)) \<and>
   fst (main_js_buildDecorations view lastIndex) =
     concat (map (\<lambda>r. map (decoration_of (rfrom r))
                         (filter (accepted [] (selection view) (rfrom r))
                            (scan (sliceString (doc view) (rfrom r) (rto r)) 0)))
               (visibleRanges view)) \<and>
   fst (snd (buildDecorations view lastIndex)) = fst (snd (buildDecorations view 0)) \<and>
   fst (snd (main_js_buildDecorations view lastIndex)) =
     fst (snd (main_js_buildDecorations view 0)) \<and>
   snd (test (js ''$ a $'') 0) = 5 \<and>
   scan (js ''$ a $'') 5 = [] \<and>
   scan (js ''$ a $'') 0 = [\<lparr>index = 0, m0 = js ''$ a $'', m1 = js ''a''\<rparr>]"
proof (intro conjI)
  show "replaceTextNodeWithMath renderMath text hasParent lastIndex =
     replaceTextNodeWithMath renderMath text hasParent 0"
    by (simp add: replaceTextNodeWithMath_eq)
  show "calls (replaceTextNodeWithMath renderMath text hasParent lastIndex) =
     map (\<lambda>m. RenderMath (trim (m1 m)) False) (scan text 0)"
    by (rule calls_eq)
  show "fst (processElement renderMath (Element tag classList children) lastIndex) =
     fst (processElement renderMath (Element tag classList children) 0)"
    unfolding processElement_eq by simp
  show "fst (snd (processElement renderMath (Element tag classList children) lastIndex)) =
     fst (snd (processElement renderMath (Element tag classList children) 0))"
    unfolding processElement_eq by simp
  show "fst (buildDecorations view lastIndex) =
     concat (map (\<lambda>r. map (decoration_of (rfrom r))
                         (filter (accepted (nativeMathRanges view) (selection view) (rfrom r))
                            (scan (sliceString (doc view) (rfrom r) (rto r)) 0)))
               (visibleRanges view))"
    unfolding buildDecorations_eq by (simp add: range_decorations_def [abs_def])
  show "fst (main_js_buildDecorations view lastIndex) =
     concat (map (\<lambda>r. map (decoration_of (rfrom r))
                         (filter (accepted [] (selection view) (rfrom r))
                            (scan (sliceString (doc view) (rfrom r) (rto r)) 0)))
               (visibleRanges view))"
    unfolding main_js_buildDecorations_eq by (simp add: range_decorations_def [abs_def])
  show "fst (snd (buildDecorations view lastIndex)) = fst (snd (buildDecorations view 0))"
    unfolding buildDecorations_eq by simp
  show "fst (snd (main_js_buildDecorations view lastIndex)) =
     fst (snd (main_js_buildDecorations view 0))"
    unfolding main_js_buildDecorations_eq by simp
  show "snd (test (js ''$ a $'') 0) = 5"
    by (simp add: test_def matcher_eval)
  show "scan (js ''$ a $'') 5 = []"
    by (simp add: matcher_eval)
  show "scan (js ''$ a $'') 0 = [\<lparr>index = 0, m0 = js ''$ a $'', m1 = js ''a''\<rparr>]"
    by (simp add: matcher_eval)
qed

theorem scans_ignore_left_over_lastIndex_witness:
  "replaceTextNodeWithMath example_renderMath (js ''$ a $'') True (snd (test (js ''$ a $'') 0)) =
     replaceTextNodeWithMath example_renderMath (js ''$ a $'') True 0 \<and>
   calls (replaceTextNodeWithMath example_renderMath (js ''$ a $'') True (snd (test (js ''$ a $'') 0))) =
     [RenderMath (js ''a'') False]"
proof -
  have t: "trim (js ''a'') = js ''a''"
    by (simp add: trim_def js_def white_space_def)
  note inst = scans_ignore_left_over_lastIndex [of example_renderMath "js ''$ a $''" True
      "snd (test (js ''$ a $'') 0)" "''P''" "[]" "[]"
      "\<lparr>doc = [], visibleRanges = [], selection = [], syntaxTree = \<lambda>a b. []\<rparr>"]
  from inst have 1: "replaceTextNodeWithMath example_renderMath (js ''$ a $'') True
      (snd (test (js ''$ a $'') 0)) =
     replaceTextNodeWithMath example_renderMath (js ''$ a $'') True 0"
    by (rule conjunct1)
  from inst have 2: "calls (replaceTextNodeWithMath example_renderMath (js ''$ a $'') True
      (snd (test (js ''$ a $'') 0))) =
     map (\<lambda>m. RenderMath (trim (m1 m)) False) (scan (js ''$ a $'') 0)"
    by blast
  from inst have 3: "scan (js ''$ a $'') 0 = [\<lparr>index = 0, m0 = js ''$ a $'', m1 = js ''a''\<rparr>]"
    by blast
  from 1 2 show ?thesis
    unfolding 3 by (simp add: t)
qed

text \<open>
  Claim C10. When every render call for the matches of one text leaf throws,
  \<open>replaceTextNodeWithMath\<close> returns false and leaves the text node in the tree as it was,
  although the fragment it assembled holds the raw text of every match; the leaf leaves
  \<open>didRender\<close> as it found it. Conversely the tree changes at a leaf only when some match of
  that leaf was rendered. When every render call of a whole pass throws, \<open>processElement\<close>
  leaves the element unchanged and does not call \<open>finishRenderMath\<close>.
\<close>

theorem all_renders_fail_leaf_unchanged:
  "((\<forall>m\<in>set (scan text 0). \<exists>e. renderMath (trim (m1 m)) False = Inl e) \<longrightarrow>
      returned (replaceTextNodeWithMath renderMath text hasParent re) = False \<and>
      placed (replaceTextNodeWithMath renderMath text hasParent re) = [TextNode text] \<and>
      (\<forall>m\<in>set (scan text 0).
         TextNode (m0 m) \<in> set (fragment (replaceTextNodeWithMath renderMath text hasParent re))) \<and>
      fst (processElement_for renderMath [text] (didRender, replaced, made, re)) = didRender) \<and>
   (placed (replaceTextNodeWithMath renderMath text hasParent re) \<noteq> [TextNode text] \<longrightarrow>
      (\<exists>m\<in>set (scan text 0). \<exists>el. renderMath (trim (m1 m)) False = Inr el)) \<and>
   ((\<forall>t\<in>set (nodesToProcess tag classList children).
       \<forall>m\<in>set (scan t 0). \<exists>e. renderMath (trim (m1 m)) False = Inl e) \<longrightarrow>
      fst (processElement renderMath (Element tag classList children) re) =
        Element tag classList children \<and>
      FinishRenderMath \<notin> set (fst (snd (processElement renderMath (Element tag classList children) re))))"
proof (intro conjI impI)
  let ?out = "replaceTextNodeWithMath renderMath text hasParent re"
  assume fail: "\<forall>m\<in>set (scan text 0). \<exists>e. renderMath (trim (m1 m)) False = Inl e"
  then have none: "\<not> list_ex (rendered renderMath) (scan text 0)"
    by (simp add: list_ex_iff not_rendered_iff)
  show "returned ?out = False"
    using none by (simp add: returned_eq)
  show "placed ?out = [TextNode text]"
    using none by (simp add: placed_eq)
  show "\<forall>m\<in>set (scan text 0). TextNode (m0 m) \<in> set (fragment ?out)"
  proof
    fix m
    assume m: "m \<in> set (scan text 0)"
    then have ne: "scan text 0 \<noteq> []" by auto
    from fail m obtain e where "renderMath (trim (m1 m)) False = Inl e" by blast
    then have "unit_of renderMath m = TextNode (m0 m)" by (simp add: unit_of_def)
    with unit_in_pieces [OF m, of renderMath "text" 0]
    show "TextNode (m0 m) \<in> set (fragment ?out)"
      unfolding fragment_eq [OF ne] by simp
  qed
  show "fst (processElement_for renderMath [text] (didRender, replaced, made, re)) = didRender"
    using none by (simp add: processElement_for_eq)
next
  assume "placed (replaceTextNodeWithMath renderMath text hasParent re) \<noteq> [TextNode text]"
  then have "list_ex (rendered renderMath) (scan text 0)"
    by (simp add: placed_eq split: if_splits)
  then show "\<exists>m\<in>set (scan text 0). \<exists>el. renderMath (trim (m1 m)) False = Inr el"
    by (simp add: list_ex_iff rendered_iff)
next
  let ?ts = "nodesToProcess tag classList children"
  assume fail: "\<forall>t\<in>set ?ts. \<forall>m\<in>set (scan t 0). \<exists>e. renderMath (trim (m1 m)) False = Inl e"
  then have none: "\<not> list_ex (\<lambda>t. list_ex (rendered renderMath) (scan t 0)) ?ts"
    by (simp add: list_ex_iff not_rendered_iff)
  have "placed (replaceTextNodeWithMath renderMath t True 0) = [TextNode t]" if "t \<in> set ?ts" for t
    using none that by (auto simp: placed_eq list_ex_iff)
  then have same: "map (\<lambda>t. placed (replaceTextNodeWithMath renderMath t True 0)) ?ts =
      map (\<lambda>t. [TextNode t]) ?ts"
    by simp
  show "fst (processElement renderMath (Element tag classList children) re) =
      Element tag classList children"
    unfolding processElement_eq same
    using splice_unchanged [of tag classList children "[]"] by simp
  have "FinishRenderMath \<notin> set (concat (map (\<lambda>t. map (\<lambda>m. RenderMath (trim (m1 m)) False)
      (scan t 0)) ?ts))"
    by auto
  then show "FinishRenderMath \<notin> set (fst (snd (processElement renderMath
      (Element tag classList children) re)))"
    unfolding processElement_eq using none by simp
qed

theorem all_renders_fail_leaf_unchanged_witness:
  "returned (replaceTextNodeWithMath example_renderMath (js ''a $ x^ $ b'') True 0) = False \<and>
   placed (replaceTextNodeWithMath example_renderMath (js ''a $ x^ $ b'') True 0) =
     [TextNode (js ''a $ x^ $ b'')] \<and>
   fst (processElement example_renderMath (Element ''P'' [] [TextNode (js ''a $ x^ $ b'')]) 0) =
     Element ''P'' [] [TextNode (js ''a $ x^ $ b'')] \<and>
   placed (replaceTextNodeWithMath example_renderMath (js ''$ a $'') True 0) \<noteq>
     [TextNode (js ''$ a $'')] \<and>
   (\<exists>m\<in>set (scan (js ''$ a $'') 0). \<exists>el. example_renderMath (trim (m1 m)) False = Inr el)"
proof -
  let ?text = "js ''a $ x^ $ b''"
  have s: "scan ?text 0 = [\<lparr>index = 2, m0 = js ''$ x^ $'', m1 = js ''x^''\<rparr>]"
    by (simp add: matcher_eval)
  have t: "trim (js ''x^'') = js ''x^''"
    by (simp add: trim_def js_def white_space_def)
  have r: "example_renderMath (js ''x^'') False = Inl ()"
    by (simp add: example_renderMath_def js_def)
  have n: "nodesToProcess ''P'' [] [TextNode ?text] = [?text]"
    by (simp add: acceptNode_def js_def dollar_def)
  have h1: "\<forall>m\<in>set (scan ?text 0). \<exists>e. example_renderMath (trim (m1 m)) False = Inl e"
    by (simp add: s t r)
  have h2: "\<forall>t\<in>set (nodesToProcess ''P'' [] [TextNode ?text]).
       \<forall>m\<in>set (scan t 0). \<exists>e. example_renderMath (trim (m1 m)) False = Inl e"
    unfolding n using h1 by simp
  from all_renders_fail_leaf_unchanged [of ?text example_renderMath True 0 False "[]" "[]"
      "''P''" "[]" "[TextNode ?text]"] h1 h2
  have a: "returned (replaceTextNodeWithMath example_renderMath ?text True 0) = False \<and>
      placed (replaceTextNodeWithMath example_renderMath ?text True 0) = [TextNode ?text] \<and>
      fst (processElement example_renderMath (Element ''P'' [] [TextNode ?text]) 0) =
        Element ''P'' [] [TextNode ?text]"
    by blast
  have s2: "scan (js ''$ a $'') 0 = [\<lparr>index = 0, m0 = js ''$ a $'', m1 = js ''a''\<rparr>]"
    by (simp add: matcher_eval)
  have t2: "trim (js ''a'') = js ''a''"
    by (simp add: trim_def js_def white_space_def)
  have r2: "example_renderMath (js ''a'') False = Inr (''SPAN'', [''math''], [])"
    by (simp add: example_renderMath_def js_def)
  have p: "placed (replaceTextNodeWithMath example_renderMath (js ''$ a $'') True 0) \<noteq>
      [TextNode (js ''$ a $'')]"
    unfolding placed_eq s2 by (simp add: rendered_def t2 r2 unit_of_def tail_text_def)
  from all_renders_fail_leaf_unchanged [of "js ''$ a $''" example_renderMath True 0 False "[]" "[]"
      "''P''" "[]" "[]"] p
  have b: "\<exists>m\<in>set (scan (js ''$ a $'') 0). \<exists>el. example_renderMath (trim (m1 m)) False = Inr el"
    by blast
  from a p b show ?thesis by blast
qed

end
